theory Spec2Isabelle
  imports Complex_Main "HOL-Library.Product_Lexorder"
begin

section \<open>Region-based room placement (strategy.py)\<close>

text \<open>
  A shallow embedding of the placement engine of \<^verbatim>\<open>strategy.py\<close>.

  \<^item> Python numbers that describe geometry (room sizes, coordinates, the step size) are
    \<open>int\<close>: \<^verbatim>\<open>Room.get_adjacent_positions\<close> passes the sizes to \<^verbatim>\<open>range\<close>, and the
    callers of the repository build rooms and regions from integer inputs.
    Scores, weights and clock readings, which are Python floats, are exact rationals
    (the literals \<^verbatim>\<open>0.8\<close>, \<^verbatim>\<open>0.2\<close> and \<^verbatim>\<open>0.5\<close> are \<open>4/5\<close>, \<open>1/5\<close> and \<open>1/2\<close>).
  \<^item> A \<^verbatim>\<open>Room\<close> object is a record in a store \<open>heap\<close>, addressed by a natural number;
    \<^verbatim>\<open>self.rooms\<close> and \<^verbatim>\<open>self.placed_rooms\<close> are lists of addresses, so that a room
    mutated through one list is seen mutated through the other, as in Python.
    The attributes \<^verbatim>\<open>x\<close> and \<^verbatim>\<open>y\<close> are always assigned together by the code; they are the
    single optional pair \<open>pos\<close>. The display name plays no role and is left out.
  \<^item> The attributes of \<^verbatim>\<open>RegionBasedPlacement\<close> that the search only reads form the record
    \<open>placement\<close>; what it mutates (the room objects, \<^verbatim>\<open>placed_rooms\<close>) forms the record
    \<open>store\<close>, together with the number of calls of \<^verbatim>\<open>time.time()\<close> made so far.
    The wall clock is a parameter \<open>time_time\<close>: its \<open>n\<close>-th reading is \<open>time_time n\<close>.
  \<^item> Exceptions are values of type \<open>error\<close>; a \<^verbatim>\<open>while\<close> loop that does not
    terminate is the value \<open>None\<close> of a partial function, reported as \<open>NonTermination\<close>.
  \<^item> A Python name with a leading underscore, \<^verbatim>\<open>_f\<close>, is written \<open>u_f\<close>.
\<close>

subsection \<open>Errors\<close>

datatype error = TypeError | ZeroDivisionError | NonTermination

type_synonym 'a result = "error + 'a"

definition rbind :: "'a result \<Rightarrow> ('a \<Rightarrow> 'b result) \<Rightarrow> 'b result" where
  "rbind m f = (case m of Inl e \<Rightarrow> Inl e | Inr v \<Rightarrow> f v)"

subsection \<open>Rooms and regions\<close>

record plot_region =
  x1 :: int
  y1 :: int
  x2 :: int
  y2 :: int

record room =
  room_id :: int
  width :: int
  height :: int
  pos :: "(int \<times> int) option"
  region :: "plot_region option"
  rotated :: bool

type_synonym addr = nat

text \<open>\<^verbatim>\<open>Room.__init__\<close>\<close>

definition Room :: "int \<Rightarrow> int \<Rightarrow> int \<Rightarrow> room" where
  "Room i w h = \<lparr>room_id = i, width = w, height = h, pos = None, region = None, rotated = False\<rparr>"

text \<open>\<^verbatim>\<open>Room.rotate\<close>\<close>

definition rotate_room :: "room \<Rightarrow> room" where
  "rotate_room r = r\<lparr>width := height r, height := width r, rotated := \<not> rotated r\<rparr>"

definition area :: "room \<Rightarrow> int" where
  "area r = width r * height r"

definition get_rect :: "room \<Rightarrow> (int \<times> int \<times> int \<times> int) option" where
  "get_rect r = (case pos r of None \<Rightarrow> None | Some (x, y) \<Rightarrow> Some (x, y, width r, height r))"

definition overlaps :: "room \<Rightarrow> room \<Rightarrow> bool" where
  "overlaps self other =
     (case pos self of None \<Rightarrow> False
      | Some (sx, sy) \<Rightarrow>
        (case pos other of None \<Rightarrow> False
         | Some (ox, oy) \<Rightarrow>
             \<not> (sx + width self \<le> ox \<or> ox + width other \<le> sx \<or>
                sy + height self \<le> oy \<or> oy + height other \<le> sy)))"

text \<open>\<^verbatim>\<open>are_adjacent(rect1, rect2)\<close>, each rectangle being \<open>(x, y, width, height)\<close>.\<close>

definition are_adjacent :: "int \<times> int \<times> int \<times> int \<Rightarrow> int \<times> int \<times> int \<times> int \<Rightarrow> bool" where
  "are_adjacent rect1 rect2 =
     (case rect1 of (ax, ay, aw, ah) \<Rightarrow>
      case rect2 of (bx, by, bw, bh) \<Rightarrow>
        if ax + aw = bx \<or> bx + bw = ax then \<not> (ay + ah \<le> by \<or> by + bh \<le> ay)
        else if ay + ah = by \<or> by + bh = ay then \<not> (ax + aw \<le> bx \<or> bx + bw \<le> ax)
        else False)"

definition is_adjacent :: "room \<Rightarrow> room \<Rightarrow> bool" where
  "is_adjacent self other =
     (case get_rect self of None \<Rightarrow> False
      | Some my_rect \<Rightarrow>
        (case get_rect other of None \<Rightarrow> False
         | Some other_rect \<Rightarrow> are_adjacent my_rect other_rect))"

text \<open>\<^verbatim>\<open>range(1, min(a, b))\<close>\<close>

definition offsets :: "int \<Rightarrow> int \<Rightarrow> int list" where
  "offsets a b = [1 .. min a b - 1]"

text \<open>
  \<^verbatim>\<open>Room.get_adjacent_positions\<close>: the triples \<open>(x, y, is_rotated)\<close>, in the order of the
  source. Reading the coordinates of an unplaced \<open>other\<close> is the \<^verbatim>\<open>TypeError\<close> of
  \<^verbatim>\<open>None - int\<close>.
\<close>

definition side_positions :: "int \<Rightarrow> int \<Rightarrow> int \<Rightarrow> int \<Rightarrow> int \<Rightarrow> int \<Rightarrow> bool \<Rightarrow> (int \<times> int \<times> bool) list" where
  "side_positions ox oy ow oh w h rot =
     [(ox - w, oy, rot), (ox + ow, oy, rot), (ox, oy - h, rot), (ox, oy + oh, rot)]
     @ concat (map (\<lambda>off. [(ox - w, oy + off, rot), (ox - w, oy - off, rot)]) (offsets h oh))
     @ concat (map (\<lambda>off. [(ox + ow, oy + off, rot), (ox + ow, oy - off, rot)]) (offsets h oh))
     @ concat (map (\<lambda>off. [(ox + off, oy - h, rot), (ox - off, oy - h, rot)]) (offsets w ow))
     @ concat (map (\<lambda>off. [(ox + off, oy + oh, rot), (ox - off, oy + oh, rot)]) (offsets w ow))"

definition get_adjacent_positions :: "room \<Rightarrow> room \<Rightarrow> (int \<times> int \<times> bool) list result" where
  "get_adjacent_positions self other =
     (case pos other of None \<Rightarrow> Inl TypeError
      | Some (ox, oy) \<Rightarrow>
          Inr (side_positions ox oy (width other) (height other) (width self) (height self) False
             @ side_positions ox oy (width other) (height other) (height self) (width self) True))"

text \<open>\<^verbatim>\<open>PlotRegion.contains\<close>\<close>

definition contains :: "plot_region \<Rightarrow> room \<Rightarrow> int \<Rightarrow> int \<Rightarrow> bool" where
  "contains rg r x y =
     (x \<ge> x1 rg \<and> x + width r \<le> x2 rg \<and> y \<ge> y1 rg \<and> y + height r \<le> y2 rg)"

text \<open>
  \<^verbatim>\<open>PlotRegion.get_sample_positions\<close>: two nested \<^verbatim>\<open>while\<close> loops. With a step size
  that is not positive the loops do not terminate; the model is a partial function,
  \<open>None\<close> standing for a run that never returns.
\<close>

partial_function (option) sample_ys :: "int \<Rightarrow> int \<Rightarrow> int \<Rightarrow> int \<Rightarrow> (int \<times> int) list \<Rightarrow> (int \<times> int) list option" where
  "sample_ys x y ylim step positions =
     (if y \<le> ylim then sample_ys x (y + step) ylim step (positions @ [(x, y)])
      else Some positions)"

partial_function (option) sample_xs :: "int \<Rightarrow> int \<Rightarrow> int \<Rightarrow> int \<Rightarrow> int \<Rightarrow> (int \<times> int) list \<Rightarrow> (int \<times> int) list option" where
  "sample_xs x xlim ystart ylim step positions =
     (if x \<le> xlim then
        Option.bind (sample_ys x ystart ylim step positions)
          (\<lambda>positions'. sample_xs (x + step) xlim ystart ylim step positions')
      else Some positions)"

declare sample_ys.simps [code]
declare sample_xs.simps [code]

definition get_sample_positions :: "plot_region \<Rightarrow> room \<Rightarrow> int \<Rightarrow> (int \<times> int) list option" where
  "get_sample_positions rg r step =
     sample_xs (x1 rg) (x2 rg - width r) (y1 rg) (y2 rg - height r) step []"

subsection \<open>The placement object\<close>

record placement =
  rooms :: "addr list"
  regions :: "plot_region list"
  adjacency :: "int \<rightharpoonup> int list"
  adjacency_graph :: "int \<rightharpoonup> int list"
  sort_method :: string
  optimize_rotations :: bool
  step_size :: int
  adjacency_weight :: rat
  area_weight :: rat
  timeout :: rat

record store =
  heap :: "addr \<Rightarrow> room"
  placed_rooms :: "addr list"
  clock :: nat

text \<open>\<^verbatim>\<open>d.get(k, [])\<close>\<close>

definition get_or_empty :: "(int \<rightharpoonup> int list) \<Rightarrow> int \<Rightarrow> int list" where
  "get_or_empty d k = (case d k of None \<Rightarrow> [] | Some v \<Rightarrow> v)"

text \<open>
  \<^verbatim>\<open>_build_adjacency_graph\<close>: a \<^verbatim>\<open>defaultdict(list)\<close> that receives the neighbours of every
  key; a key with no neighbour is never inserted.
\<close>

definition u_build_adjacency_graph :: "(int \<rightharpoonup> int list) \<Rightarrow> (int \<rightharpoonup> int list)" where
  "u_build_adjacency_graph adj =
     (\<lambda>k. case adj k of None \<Rightarrow> None | Some ns \<Rightarrow> if ns = [] then None else Some ns)"

text \<open>\<^verbatim>\<open>RegionBasedPlacement.__init__\<close>\<close>

definition RegionBasedPlacement :: "addr list \<Rightarrow> plot_region list \<Rightarrow> (int \<rightharpoonup> int list) \<Rightarrow> placement" where
  "RegionBasedPlacement rs rgs adj =
     \<lparr>rooms = rs, regions = rgs, adjacency = adj,
      adjacency_graph = u_build_adjacency_graph adj,
      sort_method = ''hybrid'', optimize_rotations = True, step_size = 1,
      adjacency_weight = 7 / 10, area_weight = 3 / 10, timeout = 30\<rparr>"

definition upd :: "store \<Rightarrow> addr \<Rightarrow> (room \<Rightarrow> room) \<Rightarrow> store" where
  "upd st a f = st\<lparr>heap := (heap st)(a := f (heap st a))\<rparr>"

text \<open>\<^verbatim>\<open>clear_placements\<close>\<close>

definition clear_placements :: "placement \<Rightarrow> store \<Rightarrow> store" where
  "clear_placements self st =
     (fold (\<lambda>a s. upd s a (\<lambda>r. r\<lparr>pos := None, region := None, rotated := False\<rparr>)) (rooms self) st)
       \<lparr>placed_rooms := []\<rparr>"

text \<open>
  \<^verbatim>\<open>sort_rooms\<close>. Python's \<^verbatim>\<open>sorted\<close> is stable, as \<open>sort_key\<close> is. The \<^verbatim>\<open>hybrid\<close> key divides
  by the largest area; the key function runs once per room, so an empty list never
  evaluates it.
\<close>

definition max_of :: "int list \<Rightarrow> int" where
  "max_of xs = fold max (tl xs) (hd xs)"

definition degree :: "placement \<Rightarrow> store \<Rightarrow> addr \<Rightarrow> int" where
  "degree self st a = int (length (get_or_empty (adjacency self) (room_id (heap st a))))"

definition sort_rooms :: "placement \<Rightarrow> store \<Rightarrow> addr list result" where
  "sort_rooms self st =
     (if sort_method self = ''area'' then
        Inr (sort_key (\<lambda>a. - area (heap st a)) (rooms self))
      else if sort_method self = ''adjacency'' then
        Inr (sort_key (\<lambda>a. - degree self st a) (rooms self))
      else if sort_method self = ''width'' then
        Inr (sort_key (\<lambda>a. - width (heap st a)) (rooms self))
      else if sort_method self = ''height'' then
        Inr (sort_key (\<lambda>a. - height (heap st a)) (rooms self))
      else if sort_method self = ''perimeter'' then
        Inr (sort_key (\<lambda>a. - (width (heap st a) + height (heap st a))) (rooms self))
      else if sort_method self = ''hybrid'' then
        (if rooms self = [] then Inr []
         else if max_of (map (\<lambda>a. area (heap st a)) (rooms self)) = 0 then Inl ZeroDivisionError
         else Inr (sort_key (\<lambda>a.
                - (adjacency_weight self * of_int (degree self st a)
                   + area_weight self * of_int (area (heap st a))
                     / of_int (max_of (map (\<lambda>a. area (heap st a)) (rooms self)))))
              (rooms self)))
      else if sort_method self = ''degree_area'' then
        Inr (sort_key (\<lambda>a. (- degree self st a, - area (heap st a))) (rooms self))
      else Inr (rooms self))"

text \<open>\<^verbatim>\<open>_get_region_fit_score\<close>\<close>

definition u_get_region_fit_score :: "room \<Rightarrow> plot_region \<Rightarrow> int \<Rightarrow> int \<Rightarrow> rat result" where
  "u_get_region_fit_score r rg x y =
     (if \<not> contains rg r x y then Inr 0
      else
        let left_space = x - x1 rg;
            right_space = x2 rg - (x + width r);
            top_space = y - y1 rg;
            bottom_space = y2 rg - (y + height r);
            total_space = left_space + right_space + top_space + bottom_space;
            room_area = area r
        in if room_area + total_space = 0 then Inl ZeroDivisionError
           else Inr (of_int room_area / of_int (room_area + total_space)))"

text \<open>
  \<^verbatim>\<open>_get_adjacency_score\<close>: the room is moved to the candidate position, scored against
  the placed rooms and moved back; the store after the call is returned with the score.
\<close>

definition adjacency_step :: "placement \<Rightarrow> store \<Rightarrow> addr \<Rightarrow> addr \<Rightarrow> rat \<Rightarrow> rat" where
  "adjacency_step self st a p score =
     (let r = heap st a; placed_room = heap st p;
          score1 = (if room_id placed_room \<in> set (get_or_empty (adjacency_graph self) (room_id r))
                    then (if is_adjacent r placed_room then score + 1 else score)
                    else score)
      in (if room_id r \<in> set (get_or_empty (adjacency_graph self) (room_id placed_room))
          then (if is_adjacent r placed_room then score1 + 1 / 2 else score1)
          else score1))"

definition u_get_adjacency_score :: "placement \<Rightarrow> store \<Rightarrow> addr \<Rightarrow> int \<times> int \<Rightarrow> bool \<Rightarrow> rat \<times> store" where
  "u_get_adjacency_score self st a position orientation =
     (let original_pos = (pos (heap st a), rotated (heap st a));
          st1 = upd st a (\<lambda>r. r\<lparr>pos := Some position\<rparr>);
          st2 = (if orientation \<noteq> rotated (heap st1 a) then upd st1 a rotate_room else st1);
          score = fold (adjacency_step self st2 a) (placed_rooms st2) 0;
          st3 = upd st2 a (\<lambda>r. r\<lparr>pos := fst original_pos\<rparr>);
          st4 = (if orientation \<noteq> snd original_pos then upd st3 a rotate_room else st3)
      in (score, st4))"

subsection \<open>Candidate generation\<close>

text \<open>A candidate is \<open>(position, region, is_rotated, score)\<close>.\<close>

type_synonym candidate = "(int \<times> int) \<times> plot_region \<times> bool \<times> rat"

definition cand_score :: "candidate \<Rightarrow> rat" where
  "cand_score c = snd (snd (snd c))"

definition cand_rotated :: "candidate \<Rightarrow> bool" where
  "cand_rotated c = fst (snd (snd c))"

text \<open>
  The grid branch: the inner loop over the sample positions of one region, in one
  orientation, and the loop over the regions.
\<close>

fun score_positions :: "room \<Rightarrow> plot_region \<Rightarrow> bool \<Rightarrow> (int \<times> int) list \<Rightarrow> candidate list \<Rightarrow> candidate list result" where
  "score_positions r rg rot [] candidates = Inr candidates"
| "score_positions r rg rot (p # ps) candidates =
     rbind (u_get_region_fit_score r rg (fst p) (snd p)) (\<lambda>fit_score.
       score_positions r rg rot ps
         (if fit_score > 0 then candidates @ [(p, rg, rot, fit_score)] else candidates))"

definition sample_and_score :: "placement \<Rightarrow> store \<Rightarrow> addr \<Rightarrow> plot_region \<Rightarrow> bool \<Rightarrow> candidate list \<Rightarrow> candidate list result" where
  "sample_and_score self st a rg rot candidates =
     (case get_sample_positions rg (heap st a) (step_size self) of
        None \<Rightarrow> Inl NonTermination
      | Some ps \<Rightarrow> score_positions (heap st a) rg rot ps candidates)"

fun grid_regions :: "placement \<Rightarrow> store \<Rightarrow> addr \<Rightarrow> plot_region list \<Rightarrow> candidate list \<Rightarrow> (candidate list \<times> store) result" where
  "grid_regions self st a [] candidates = Inr (candidates, st)"
| "grid_regions self st a (rg # rgs) candidates =
     rbind (sample_and_score self st a rg False candidates) (\<lambda>candidates1.
       if optimize_rotations self then
         (let st1 = upd st a rotate_room in
          rbind (sample_and_score self st1 a rg True candidates1) (\<lambda>candidates2.
            grid_regions self (upd st1 a rotate_room) a rgs candidates2))
       else grid_regions self st a rgs candidates1)"

text \<open>
  The adjacency-driven branch: the loop over the regions for one position, the loop over
  the positions next to one placed room, and the loop over the placed rooms.
\<close>

fun adj_regions :: "placement \<Rightarrow> store \<Rightarrow> addr \<Rightarrow> int \<times> int \<Rightarrow> bool \<Rightarrow> plot_region list \<Rightarrow> candidate list \<Rightarrow> (candidate list \<times> store) result" where
  "adj_regions self st a p is_rotated [] candidates = Inr (candidates, st)"
| "adj_regions self st a p is_rotated (rg # rgs) candidates =
     rbind (u_get_region_fit_score (heap st a) rg (fst p) (snd p)) (\<lambda>fit_score.
       if fit_score > 0 then
         (case u_get_adjacency_score self st a p is_rotated of
            (adj_score, st1) \<Rightarrow>
              adj_regions self st1 a p is_rotated rgs
                (candidates @ [(p, rg, is_rotated, 4 / 5 * adj_score + 1 / 5 * fit_score)]))
       else adj_regions self st a p is_rotated rgs candidates)"

fun adj_positions :: "placement \<Rightarrow> store \<Rightarrow> addr \<Rightarrow> (int \<times> int \<times> bool) list \<Rightarrow> candidate list \<Rightarrow> (candidate list \<times> store) result" where
  "adj_positions self st a [] candidates = Inr (candidates, st)"
| "adj_positions self st a ((x, y, is_rotated) # ps) candidates =
     (let st1 = (if is_rotated \<noteq> rotated (heap st a) then upd st a rotate_room else st) in
      rbind (adj_regions self st1 a (x, y) is_rotated (regions self) candidates) (\<lambda>(candidates1, st2).
        let st3 = (if is_rotated \<noteq> rotated (heap st2 a) then upd st2 a rotate_room else st2) in
        adj_positions self st3 a ps candidates1))"

fun adj_targets :: "placement \<Rightarrow> store \<Rightarrow> addr \<Rightarrow> addr list \<Rightarrow> candidate list \<Rightarrow> (candidate list \<times> store) result" where
  "adj_targets self st a [] candidates = Inr (candidates, st)"
| "adj_targets self st a (placed_room # rest) candidates =
     rbind (get_adjacent_positions (heap st a) (heap st placed_room)) (\<lambda>ps.
       rbind (adj_positions self st a ps candidates) (\<lambda>(candidates1, st1).
         adj_targets self st1 a rest candidates1))"

text \<open>\<^verbatim>\<open>_generate_candidate_positions\<close>; \<^verbatim>\<open>list.sort\<close> is stable.\<close>

definition u_generate_candidate_positions :: "placement \<Rightarrow> store \<Rightarrow> addr \<Rightarrow> (candidate list \<times> store) result" where
  "u_generate_candidate_positions self st a =
     (let required_adjacencies = set (get_or_empty (adjacency_graph self) (room_id (heap st a)));
          adjacent_placed_rooms0 =
            filter (\<lambda>p. room_id (heap st p) \<in> required_adjacencies) (placed_rooms st);
          adjacent_placed_rooms =
            (if adjacent_placed_rooms0 = [] \<and> placed_rooms st \<noteq> [] then placed_rooms st
             else adjacent_placed_rooms0)
      in rbind (if adjacent_placed_rooms = [] then grid_regions self st a (regions self) []
                else adj_targets self st a adjacent_placed_rooms [])
           (\<lambda>(candidates, st1). Inr (sort_key (\<lambda>c. - cand_score c) candidates, st1)))"

subsection \<open>Backtracking search\<close>

text \<open>
  The timeout test at the entry of \<^verbatim>\<open>_place_room_backtracking\<close>. The conjunction
  short-circuits: the clock is read only when \<^verbatim>\<open>timeout_start\<close> is truthy (neither
  \<^verbatim>\<open>None\<close> nor zero).
\<close>

definition check_timeout :: "(nat \<Rightarrow> rat) \<Rightarrow> placement \<Rightarrow> store \<Rightarrow> rat option \<Rightarrow> bool \<times> store" where
  "check_timeout time_time self st timeout_start =
     (case timeout_start of
        None \<Rightarrow> (False, st)
      | Some t0 \<Rightarrow>
          if t0 = 0 then (False, st)
          else (time_time (clock st) - t0 > timeout self, st\<lparr>clock := clock st + 1\<rparr>))"

definition has_overlap :: "store \<Rightarrow> addr \<Rightarrow> bool" where
  "has_overlap st a = list_ex (\<lambda>p. overlaps (heap st a) (heap st p)) (placed_rooms st)"

text \<open>
  \<^verbatim>\<open>_place_room_backtracking\<close>, with its loop over the candidates as \<open>try_candidates\<close>.
  The result is the returned flag and the store left behind.
\<close>

function u_place_room_backtracking :: "(nat \<Rightarrow> rat) \<Rightarrow> placement \<Rightarrow> store \<Rightarrow> nat \<Rightarrow> rat option \<Rightarrow> (bool \<times> store) result"
  and try_candidates :: "(nat \<Rightarrow> rat) \<Rightarrow> placement \<Rightarrow> store \<Rightarrow> nat \<Rightarrow> rat option \<Rightarrow> candidate list \<Rightarrow> (bool \<times> store) result" where
  "u_place_room_backtracking time_time self st room_idx timeout_start =
     (case check_timeout time_time self st timeout_start of
        (expired, st0) \<Rightarrow>
          if expired then Inr (False, st0)
          else if room_idx \<ge> length (rooms self) then Inr (True, st0)
          else (case u_generate_candidate_positions self st0 (rooms self ! room_idx) of
                  Inl e \<Rightarrow> Inl e
                | Inr (candidates, st1) \<Rightarrow>
                    try_candidates time_time self st1 room_idx timeout_start candidates))"
| "try_candidates time_time self st room_idx timeout_start [] =
     (let current_room = rooms self ! room_idx;
          st1 = (if rotated (heap st current_room) \<noteq> rotated (heap st (rooms self ! room_idx))
                 then upd st current_room rotate_room else st)
      in Inr (False, upd st1 current_room (\<lambda>r. r\<lparr>pos := None, region := None\<rparr>)))"
| "try_candidates time_time self st room_idx timeout_start ((position, rg, is_rotated, score) # cs) =
     (let current_room = rooms self ! room_idx;
          st1 = (if is_rotated \<noteq> rotated (heap st current_room)
                 then upd st current_room rotate_room else st);
          st2 = upd st1 current_room (\<lambda>r. r\<lparr>pos := Some position, region := Some rg\<rparr>)
      in if \<not> has_overlap st2 current_room then
           (case u_place_room_backtracking time_time self
                   (st2\<lparr>placed_rooms := placed_rooms st2 @ [current_room]\<rparr>)
                   (room_idx + 1) timeout_start of
              Inl e \<Rightarrow> Inl e
            | Inr (ok, st3) \<Rightarrow>
                if ok then Inr (True, st3)
                else try_candidates time_time self
                       (st3\<lparr>placed_rooms := remove1 current_room (placed_rooms st3)\<rparr>)
                       room_idx timeout_start cs)
         else try_candidates time_time self st2 room_idx timeout_start cs)"
  by pat_completeness auto
termination
  by (relation "measures
        [\<lambda>v. case v of
           Inl (t, self, st, i, ts) \<Rightarrow>
             (if i \<ge> length (rooms self) then 0 else 2 * (length (rooms self) - i) + 2)
         | Inr (t, self, st, i, ts, cs) \<Rightarrow> 2 * (length (rooms self) - i) + 1,
         \<lambda>v. case v of Inl _ \<Rightarrow> 0 | Inr (t, self, st, i, ts, cs) \<Rightarrow> length cs]") auto

subsection \<open>Greedy fallback\<close>

text \<open>
  The running best of \<^verbatim>\<open>_place_rooms_greedy\<close>:
  \<open>(best_score, best_pos, best_rot, best_region)\<close>.
\<close>

type_synonym best = "rat \<times> (int \<times> int) option \<times> bool \<times> plot_region option"

fun greedy_candidates :: "placement \<Rightarrow> store \<Rightarrow> addr \<Rightarrow> candidate list \<Rightarrow> best \<Rightarrow> (best \<times> store) result" where
  "greedy_candidates self st a [] b = Inr (b, st)"
| "greedy_candidates self st a ((position, rg, is_rotated, score) # cs) b =
     (let st1 = (if is_rotated \<noteq> rotated (heap st a) then upd st a rotate_room else st);
          st2 = upd st1 a (\<lambda>r. r\<lparr>pos := Some position\<rparr>)
      in rbind
           (if \<not> has_overlap st2 a then
              (case u_get_adjacency_score self st2 a position is_rotated of
                 (adjacency_score, st3) \<Rightarrow>
                   rbind (u_get_region_fit_score (heap st3 a) rg (fst position) (snd position))
                     (\<lambda>region_score.
                        let combined_score = 4 / 5 * adjacency_score + 1 / 5 * region_score in
                        Inr (if combined_score > fst b
                             then (combined_score, Some position, is_rotated, Some rg)
                             else b, st3)))
            else Inr (b, st2))
           (\<lambda>(b1, st4).
              let st5 = (if is_rotated \<noteq> rotated (heap st4 a) then upd st4 a rotate_room else st4)
              in greedy_candidates self st5 a cs b1))"

fun greedy_rooms :: "placement \<Rightarrow> store \<Rightarrow> addr list \<Rightarrow> store result" where
  "greedy_rooms self st [] = Inr st"
| "greedy_rooms self st (a # rest) =
     rbind (u_generate_candidate_positions self st a) (\<lambda>(candidates, st1).
       rbind (greedy_candidates self st1 a candidates (- 1, None, False, None))
         (\<lambda>((best_score, best_pos, best_rot, best_region), st2).
            case best_pos of
              None \<Rightarrow> greedy_rooms self st2 rest
            | Some p \<Rightarrow>
                let st3 = (if best_rot \<noteq> rotated (heap st2 a) then upd st2 a rotate_room else st2);
                    st4 = upd st3 a (\<lambda>r. r\<lparr>pos := Some p, region := best_region\<rparr>)
                in greedy_rooms self (st4\<lparr>placed_rooms := placed_rooms st4 @ [a]\<rparr>) rest))"

text \<open>\<^verbatim>\<open>_place_rooms_greedy\<close>: the number of placed rooms and the store left behind.\<close>

definition u_place_rooms_greedy :: "placement \<Rightarrow> store \<Rightarrow> addr list \<Rightarrow> (nat \<times> store) result" where
  "u_place_rooms_greedy self st sorted_rooms =
     rbind (greedy_rooms self st sorted_rooms) (\<lambda>st1. Inr (length (placed_rooms st1), st1))"

subsection \<open>The driver and the final score\<close>

text \<open>
  \<^verbatim>\<open>place_rooms\<close>: the returned count, the object with its room list replaced by the
  sorted one, and the store left behind.
\<close>

definition place_rooms :: "(nat \<Rightarrow> rat) \<Rightarrow> placement \<Rightarrow> store \<Rightarrow> (nat \<times> placement \<times> store) result" where
  "place_rooms time_time self st =
     (let st1 = clear_placements self st in
      rbind (sort_rooms self st1) (\<lambda>sorted_rooms.
        let self1 = self\<lparr>rooms := sorted_rooms\<rparr>;
            timeout_start = time_time (clock st1);
            st2 = st1\<lparr>clock := clock st1 + 1\<rparr>
        in rbind (u_place_room_backtracking time_time self1 st2 0 (Some timeout_start))
             (\<lambda>(ok, st3).
                if ok then Inr (length (placed_rooms st3), self1, st3)
                else rbind (u_place_rooms_greedy self1 (clear_placements self1 st3) sorted_rooms)
                       (\<lambda>(n, st4). Inr (n, self1, st4)))))"

text \<open>\<^verbatim>\<open>get_adjacency_score\<close>: \<open>(satisfied, total, ratio)\<close>.\<close>

definition neighbor_step :: "store \<Rightarrow> addr \<Rightarrow> int \<Rightarrow> nat \<times> nat \<Rightarrow> nat \<times> nat" where
  "neighbor_step st room1 neighbor_id acc =
     (case acc of (satisfied, tot) \<Rightarrow>
        (if list_ex (\<lambda>room2. room_id (heap st room2) = neighbor_id
                              \<and> is_adjacent (heap st room1) (heap st room2)) (placed_rooms st)
         then satisfied + 1 else satisfied, tot + 1))"

definition get_adjacency_score :: "placement \<Rightarrow> store \<Rightarrow> nat \<times> nat \<times> rat" where
  "get_adjacency_score self st =
     (case fold (\<lambda>room1 acc.
                   fold (neighbor_step st room1)
                     (get_or_empty (adjacency self) (room_id (heap st room1))) acc)
             (placed_rooms st) (0, 0) of
        (satisfied, tot) \<Rightarrow>
          (satisfied, tot, if tot > 0 then of_nat satisfied / of_nat tot else 1))"

subsection \<open>Observing results\<close>

text \<open>The value a call returns, \<open>None\<close> when it raises or does not return.\<close>

definition returned :: "'a result \<Rightarrow> 'a option" where
  "returned r = (case r of Inl e \<Rightarrow> None | Inr v \<Rightarrow> Some v)"

text \<open>The candidates a call of \<^verbatim>\<open>_generate_candidate_positions\<close> returns.\<close>

definition candidates_of :: "(candidate list \<times> store) result \<Rightarrow> candidate list option" where
  "candidates_of r = map_option fst (returned r)"

text \<open>The flag of a backtracking call, and a room as the call leaves it.\<close>

definition flag_of :: "(bool \<times> store) result \<Rightarrow> bool option" where
  "flag_of r = map_option fst (returned r)"

definition room_after :: "(bool \<times> store) result \<Rightarrow> addr \<Rightarrow> room option" where
  "room_after r a = map_option (\<lambda>v. heap (snd v) a) (returned r)"

text \<open>
  After a call of \<^verbatim>\<open>place_rooms\<close>: the count, and the count together with the placed list
  and one room.
\<close>

definition count_of :: "(nat \<times> placement \<times> store) result \<Rightarrow> nat option" where
  "count_of r = map_option fst (returned r)"

definition outcome_of :: "(nat \<times> placement \<times> store) result \<Rightarrow> addr \<Rightarrow> (nat \<times> addr list \<times> room) option" where
  "outcome_of r a =
     map_option (\<lambda>v. (fst v, placed_rooms (snd (snd v)), heap (snd (snd v)) a)) (returned r)"

text \<open>A room after a call of \<^verbatim>\<open>place_rooms\<close> followed by \<^verbatim>\<open>clear_placements\<close>.\<close>

definition cleared_room_of :: "(nat \<times> placement \<times> store) result \<Rightarrow> addr \<Rightarrow> room option" where
  "cleared_room_of r a =
     map_option (\<lambda>v. heap (clear_placements (fst (snd v)) (snd (snd v))) a) (returned r)"

text \<open>A store of fresh rooms: address \<open>i\<close> holds the \<open>i\<close>-th room of the list.\<close>

definition fresh_store :: "room list \<Rightarrow> store" where
  "fresh_store rs = \<lparr>heap = (\<lambda>a. if a < length rs then rs ! a else Room 0 1 1),
                      placed_rooms = [], clock = 0\<rparr>"

text \<open>\<^verbatim>\<open>PlotRegion.__init__\<close>\<close>

definition PlotRegion :: "int \<Rightarrow> int \<Rightarrow> int \<Rightarrow> int \<Rightarrow> plot_region" where
  "PlotRegion a b c d = \<lparr>x1 = a, y1 = b, x2 = c, y2 = d\<rparr>"

subsection \<open>The placement invariant\<close>

text \<open>
  A placed room has a rectangle and an assigned region, and the rectangle lies inside
  the region.
\<close>

definition placed_ok :: "room \<Rightarrow> bool" where
  "placed_ok r =
     (case pos r of None \<Rightarrow> False
      | Some (x, y) \<Rightarrow> (case region r of None \<Rightarrow> False | Some rg \<Rightarrow> contains rg r x y))"

definition no_overlap :: "store \<Rightarrow> bool" where
  "no_overlap st =
     (\<forall>a \<in> set (placed_rooms st). \<forall>b \<in> set (placed_rooms st).
        a \<noteq> b \<longrightarrow> \<not> overlaps (heap st a) (heap st b))"

definition placement_invariant :: "store \<Rightarrow> bool" where
  "placement_invariant st =
     (distinct (placed_rooms st) \<and> no_overlap st \<and>
      (\<forall>a \<in> set (placed_rooms st). placed_ok (heap st a)))"

text \<open>A room in the orientation \<open>b\<close>: rotated when its flag differs.\<close>

definition orient :: "bool \<Rightarrow> room \<Rightarrow> room" where
  "orient b r = (if rotated r = b then r else rotate_room r)"

text \<open>A candidate fits: the room, turned as the candidate says, lies inside the region.\<close>

definition cand_ok :: "room \<Rightarrow> candidate \<Rightarrow> bool" where
  "cand_ok r c =
     (case c of (p, rg, rot, sc) \<Rightarrow> contains rg (orient rot r) (fst p) (snd p))"

text \<open>
  Two states of a room have the same shape when they agree on the sizes once both are
  turned to the unrotated orientation; a step touches only the room at \<open>a\<close> when it
  keeps the placed list, every other room, and the shape of the room at \<open>a\<close>.
\<close>

definition same_shape :: "room \<Rightarrow> room \<Rightarrow> bool" where
  "same_shape r r' =
     (width (orient False r') = width (orient False r)
      \<and> height (orient False r') = height (orient False r))"

definition touches_only :: "addr \<Rightarrow> store \<Rightarrow> store \<Rightarrow> bool" where
  "touches_only a st st' =
     (placed_rooms st' = placed_rooms st \<and> (\<forall>b. b \<noteq> a \<longrightarrow> heap st' b = heap st b)
      \<and> same_shape (heap st a) (heap st' a))"

text \<open>A step keeps the placed list and every placed room.\<close>

definition frame :: "store \<Rightarrow> store \<Rightarrow> bool" where
  "frame st st' =
     (placed_rooms st' = placed_rooms st \<and> (\<forall>b\<in>set (placed_rooms st). heap st' b = heap st b))"

text \<open>
  What a backtracking call promises: on success the placement invariant, on failure the
  placed list and the placed rooms as they were.
\<close>

definition search_post :: "placement \<Rightarrow> store \<Rightarrow> (bool \<times> store) result \<Rightarrow> bool" where
  "search_post self st res =
     (\<forall>ok st'. res = Inr (ok, st') \<longrightarrow>
        (if ok then placement_invariant st' \<and> set (placed_rooms st') \<subseteq> set (rooms self)
         else frame st st'))"

text \<open>
  The running best of the greedy pass is usable: its candidate fits its region and,
  placed, overlaps no placed room.
\<close>

definition good_best :: "store \<Rightarrow> addr \<Rightarrow> best \<Rightarrow> bool" where
  "good_best st a b =
     (case b of (bs, bp, br, brg) \<Rightarrow>
        (case bp of None \<Rightarrow> True
         | Some p \<Rightarrow>
             (\<exists>rg. brg = Some rg \<and> cand_ok (heap st a) (p, rg, br, 0))
             \<and> (\<forall>q\<in>set (placed_rooms st).
                   \<not> overlaps ((orient br (heap st a))\<lparr>pos := Some p\<rparr>) (heap st q))))"

text \<open>A room of positive size.\<close>

definition room_wf :: "room \<Rightarrow> bool" where
  "room_wf r = (0 < width r \<and> 0 < height r)"

text \<open>A step keeps the shape of every room; a backtracking call returns and does so.\<close>

definition keeps_shapes :: "store \<Rightarrow> store \<Rightarrow> bool" where
  "keeps_shapes st st' = (\<forall>b. same_shape (heap st b) (heap st' b))"

definition search_total :: "store \<Rightarrow> (bool \<times> store) result \<Rightarrow> bool" where
  "search_total st res = (\<exists>ok st'. res = Inr (ok, st') \<and> keeps_shapes st st')"

text \<open>The gain of one placed room in the adjacency heuristic.\<close>

definition adjacency_gain :: "placement \<Rightarrow> room \<Rightarrow> room \<Rightarrow> rat" where
  "adjacency_gain self r placed_room =
     (if room_id placed_room \<in> set (get_or_empty (adjacency_graph self) (room_id r))
         \<and> is_adjacent r placed_room then 1 else 0)
     + (if room_id r \<in> set (get_or_empty (adjacency_graph self) (room_id placed_room))
          \<and> is_adjacent r placed_room then 1 / 2 else 0)"

text \<open>The store while a room is tried at a position, in an orientation.\<close>

definition moved :: "store \<Rightarrow> addr \<Rightarrow> int \<times> int \<Rightarrow> bool \<Rightarrow> store" where
  "moved st a position orientation =
     upd st a (\<lambda>r. orient orientation (r\<lparr>pos := Some position\<rparr>))"

subsection \<open>Concrete scenarios\<close>

text \<open>Two unit rooms that require each other; room 2 is placed at \<open>(1, 0)\<close>.\<close>

definition pair_self :: placement where
  "pair_self = RegionBasedPlacement [0, 1] [PlotRegion 0 0 5 5] [1 \<mapsto> [2], 2 \<mapsto> [1]]"

definition pair_store :: store where
  "pair_store =
     (fresh_store [Room 1 1 1, (Room 2 1 1)\<lparr>pos := Some (1, 0), region := Some (PlotRegion 0 0 5 5)\<rparr>])
       \<lparr>placed_rooms := [1]\<rparr>"

text \<open>The same two rooms, both placed, side by side.\<close>

definition pair_done :: store where
  "pair_done =
     (fresh_store [(Room 1 1 1)\<lparr>pos := Some (0, 0), region := Some (PlotRegion 0 0 5 5)\<rparr>,
                   (Room 2 1 1)\<lparr>pos := Some (1, 0), region := Some (PlotRegion 0 0 5 5)\<rparr>])
       \<lparr>placed_rooms := [0, 1]\<rparr>"

text \<open>Rotation switched off; a unit room is placed, a 1 by 2 room is next.\<close>

definition norot_self :: placement where
  "norot_self = (RegionBasedPlacement [0, 1] [PlotRegion 0 0 5 5] Map.empty)\<lparr>optimize_rotations := False\<rparr>"

definition norot_store :: store where
  "norot_store =
     (fresh_store [(Room 1 1 1)\<lparr>pos := Some (0, 0), region := Some (PlotRegion 0 0 5 5)\<rparr>, Room 2 1 2])
       \<lparr>placed_rooms := [0]\<rparr>"

text \<open>A 2 by 1 room and a 2 by 2 room in a 2 by 2 region: the second never fits beside the first.\<close>

definition tight_self :: placement where
  "tight_self = RegionBasedPlacement [0, 1] [PlotRegion 0 0 2 2] Map.empty"

definition tight_store :: store where
  "tight_store = fresh_store [Room 1 2 1, Room 2 2 2]"

text \<open>A 2 by 1 room and a region 1 wide and 2 high: the room fits only when rotated.\<close>

definition narrow_self :: placement where
  "narrow_self = RegionBasedPlacement [0] [PlotRegion 0 0 1 2] Map.empty"

definition narrow_store :: store where
  "narrow_store = fresh_store [Room 1 2 1]"

text \<open>Three unit rooms in a region 2 wide and 1 high: only two fit.\<close>

definition crowded_self :: placement where
  "crowded_self = RegionBasedPlacement [0, 1, 2] [PlotRegion 0 0 2 1] Map.empty"

definition crowded_store :: store where
  "crowded_store = fresh_store [Room 1 1 1, Room 2 1 1, Room 3 1 1]"

text \<open>
  A unit room and a 2 by 1 room, a region 3 wide and a unit region in its middle; the
  timeout is 0 and the rooms keep their input order.
\<close>

definition trap_self :: placement where
  "trap_self =
     (RegionBasedPlacement [0, 1] [PlotRegion 0 0 3 1, PlotRegion 1 0 2 1] Map.empty)
       \<lparr>sort_method := ''adjacency'', timeout := 0\<rparr>"

definition trap_store :: store where
  "trap_store = fresh_store [Room 1 1 1, Room 2 2 1]"

text \<open>Two regions far apart; a 2 by 2 room fills the first, another 2 by 2 room is next.\<close>

definition far_self :: placement where
  "far_self = RegionBasedPlacement [0, 1] [PlotRegion 0 0 2 2, PlotRegion 10 10 12 12] Map.empty"

definition far_store :: store where
  "far_store =
     (fresh_store [(Room 1 2 2)\<lparr>pos := Some (0, 0), region := Some (PlotRegion 0 0 2 2)\<rparr>, Room 2 2 2])
       \<lparr>placed_rooms := [0]\<rparr>"


text \<open>Two unit rooms that require each other, in a region 2 wide and 1 high.\<close>

definition duo_self :: placement where
  "duo_self = RegionBasedPlacement [0, 1] [PlotRegion 0 0 2 1] [1 \<mapsto> [2], 2 \<mapsto> [1]]"

definition duo_store :: store where
  "duo_store = fresh_store [Room 1 1 1, Room 2 1 1]"

section \<open>Properties\<close>

subsection \<open>Evaluation of concrete runs\<close>

declare u_place_room_backtracking.simps [simp del]

lemma rbind_weak_cong: "m = m' \<Longrightarrow> rbind m f = rbind m' f"
  by simp

lemma rbind_Inr: "rbind (Inr v) f = f v"
  by (simp add: rbind_def)

lemma rbind_Inl: "rbind (Inl e) f = Inl e"
  by (simp add: rbind_def)

lemmas eval_defs =
  returned_def candidates_of_def flag_of_def room_after_def count_of_def outcome_of_def
  cleared_room_of_def fresh_store_def PlotRegion_def RegionBasedPlacement_def Room_def
  rbind_Inr rbind_Inl upd_def rotate_room_def area_def get_rect_def overlaps_def
  are_adjacent_def is_adjacent_def offsets_def side_positions_def get_adjacent_positions_def
  contains_def sample_ys.simps sample_xs.simps get_sample_positions_def get_or_empty_def
  u_build_adjacency_graph_def u_get_region_fit_score_def adjacency_step_def
  u_get_adjacency_score_def cand_score_def cand_rotated_def sample_and_score_def
  u_generate_candidate_positions_def check_timeout_def has_overlap_def
  u_place_room_backtracking.simps clear_placements_def sort_rooms_def degree_def max_of_def
  u_place_rooms_greedy_def place_rooms_def neighbor_step_def get_adjacency_score_def
  Let_def upto.simps

subsection \<open>Orientation, shape and frames\<close>

lemma rotated_orient [simp]: "rotated (orient b r) = b"
  by (simp add: orient_def rotate_room_def)

lemma orient_fields [simp]:
  "pos (orient b r) = pos r" "region (orient b r) = region r" "room_id (orient b r) = room_id r"
  by (simp_all add: orient_def rotate_room_def)

lemma orient_orient [simp]: "orient b (orient c r) = orient b r"
  by (simp add: orient_def rotate_room_def)

lemma orient_same: "rotated r = b \<Longrightarrow> orient b r = r"
  by (simp add: orient_def)

lemma rotate_if_orient: "(if b \<noteq> rotated r then rotate_room r else r) = orient b r"
  by (simp add: orient_def)

lemma rotate_room_orient: "rotate_room r = orient (\<not> rotated r) r"
  by (simp add: orient_def)

lemma rotate_room_twice [simp]: "rotate_room (rotate_room r) = r"
  by (rule room.equality) (simp_all add: rotate_room_def)

lemma orient_pos_update: "orient b (r\<lparr>pos := p\<rparr>) = (orient b r)\<lparr>pos := p\<rparr>"
  by (simp add: orient_def rotate_room_def)

lemma orient_region_update: "orient b (r\<lparr>region := g\<rparr>) = (orient b r)\<lparr>region := g\<rparr>"
  by (simp add: orient_def rotate_room_def)

lemma same_shape_refl [simp]: "same_shape r r"
  by (simp add: same_shape_def)

lemma same_shape_trans: "same_shape r r' \<Longrightarrow> same_shape r' r'' \<Longrightarrow> same_shape r r''"
  by (simp add: same_shape_def)

lemma same_shape_orient [simp]: "same_shape r (orient b r)"
  by (simp add: same_shape_def)

lemma same_shape_rotate [simp]: "same_shape r (rotate_room r)"
  by (simp add: same_shape_def rotate_room_orient)

lemma same_shape_pos [simp]: "same_shape r (r\<lparr>pos := p\<rparr>)"
  by (simp add: same_shape_def orient_pos_update)

lemma same_shape_region [simp]: "same_shape r (r\<lparr>region := g\<rparr>)"
  by (simp add: same_shape_def orient_region_update)

lemma same_shape_dims:
  "same_shape r r' \<Longrightarrow> width (orient b r') = width (orient b r) \<and> height (orient b r') = height (orient b r)"
  by (cases b) (auto simp: same_shape_def orient_def rotate_room_def split: if_splits)

lemma contains_dims:
  "width r' = width r \<Longrightarrow> height r' = height r \<Longrightarrow> contains rg r' x y = contains rg r x y"
  by (simp add: contains_def)

lemma cand_ok_same_shape: "same_shape r r' \<Longrightarrow> cand_ok r' c = cand_ok r c"
proof -
  assume s: "same_shape r r'"
  obtain p rg rot sc where c: "c = (p, rg, rot, sc)"
    by (cases c) auto
  from same_shape_dims [OF s, of rot] show ?thesis
    by (simp add: c cand_ok_def contains_def)
qed

lemma overlaps_dims:
  "width r' = width r \<Longrightarrow> height r' = height r \<Longrightarrow> pos r' = pos r \<Longrightarrow> overlaps r' q = overlaps r q"
  by (auto simp: overlaps_def split: option.splits)

lemma overlaps_sym: "overlaps r q = overlaps q r"
  by (auto simp: overlaps_def split: option.splits)

lemma touches_only_refl [simp]: "touches_only a st st"
  by (simp add: touches_only_def)

lemma touches_only_trans:
  "touches_only a st st' \<Longrightarrow> touches_only a st' st'' \<Longrightarrow> touches_only a st st''"
  by (auto simp: touches_only_def intro: same_shape_trans)

lemma touches_only_upd:
  "same_shape (heap st a) (f (heap st a)) \<Longrightarrow> touches_only a st (upd st a f)"
  by (simp add: touches_only_def upd_def)

lemma upd_upd: "upd (upd st a f) a g = upd st a (\<lambda>r. g (f r))"
  by (simp add: upd_def)

lemma upd_id: "f (heap st a) = heap st a \<Longrightarrow> upd st a f = st"
  by (simp add: upd_def)

lemma heap_upd_same [simp]: "heap (upd st a f) a = f (heap st a)"
  by (simp add: upd_def)

lemma heap_upd_other: "b \<noteq> a \<Longrightarrow> heap (upd st a f) b = heap st b"
  by (simp add: upd_def)

lemma placed_rooms_upd [simp]: "placed_rooms (upd st a f) = placed_rooms st"
  by (simp add: upd_def)

lemma clock_upd [simp]: "clock (upd st a f) = clock st"
  by (simp add: upd_def)

lemma rotate_step_orient:
  "(if b \<noteq> rotated (heap st a) then upd st a rotate_room else st) = upd st a (orient b)"
  by (simp add: orient_def upd_def)

lemma rotate_step_orient':
  "(if b = (\<not> rotated (heap st a)) then upd st a rotate_room else st) = upd st a (orient b)"
  by (auto simp: orient_def upd_def)

lemma adjacency_score_restores: "snd (u_get_adjacency_score self st a p b) = st"
proof (cases "b = rotated (heap st a)")
  case True
  have "(heap st a)\<lparr>pos := Some p, pos := pos (heap st a)\<rparr> = heap st a"
    by (cases "heap st a") simp
  with True show ?thesis
    by (simp add: u_get_adjacency_score_def Let_def upd_def)
next
  case False
  have "rotate_room ((rotate_room ((heap st a)\<lparr>pos := Some p\<rparr>))\<lparr>pos := pos (heap st a)\<rparr>) = heap st a"
    by (cases "heap st a") (simp add: rotate_room_def)
  with False show ?thesis
    by (simp add: u_get_adjacency_score_def Let_def upd_def)
qed

lemma fit_score_positive:
  "u_get_region_fit_score r rg x y = Inr f \<Longrightarrow> 0 < f \<Longrightarrow> contains rg r x y"
  by (auto simp: u_get_region_fit_score_def split: if_splits)

subsection \<open>The adjacency heuristic of the search\<close>

lemma fold_adjacency_step:
  "fold (adjacency_step self st a) ps acc
     = acc + sum_list (map (\<lambda>p. adjacency_gain self (heap st a) (heap st p)) ps)"
  by (induction ps arbitrary: acc) (simp_all add: adjacency_step_def adjacency_gain_def Let_def)

lemma score_store_moved:
  "(if orientation \<noteq> rotated (heap (upd st a (\<lambda>r. r\<lparr>pos := Some position\<rparr>)) a)
    then upd (upd st a (\<lambda>r. r\<lparr>pos := Some position\<rparr>)) a rotate_room
    else upd st a (\<lambda>r. r\<lparr>pos := Some position\<rparr>)) = moved st a position orientation"
  by (auto simp: moved_def upd_def orient_def)

lemma placed_rooms_moved: "placed_rooms (moved st a p b) = placed_rooms st"
  by (simp add: moved_def upd_def)

text \<open>
  C10, as the code has it. The score of a candidate is the sum, over the placed rooms, of
  the gain of each: 1 when the placed room is a required neighbour of the candidate room
  and the two are adjacent at the candidate position, plus 1/2 when the candidate room is
  a required neighbour of the placed room and the two are adjacent. The two tests are
  independent, so a pair that is declared in both directions and is adjacent
  contributes 3/2.
\<close>

theorem adjacency_heuristic_sum:
  "fst (u_get_adjacency_score self st a position orientation)
     = sum_list (map (\<lambda>p. adjacency_gain self (heap (moved st a position orientation) a)
                                        (heap (moved st a position orientation) p))
                 (placed_rooms st))
   \<and> (room_id q \<in> set (get_or_empty (adjacency_graph self) (room_id r))
        \<and> room_id r \<in> set (get_or_empty (adjacency_graph self) (room_id q))
        \<and> is_adjacent r q \<longrightarrow> adjacency_gain self r q = 3 / 2)"
proof
  show "fst (u_get_adjacency_score self st a position orientation)
     = sum_list (map (\<lambda>p. adjacency_gain self (heap (moved st a position orientation) a)
                                        (heap (moved st a position orientation) p))
                 (placed_rooms st))"
    unfolding u_get_adjacency_score_def Let_def score_store_moved
    by (simp add: fold_adjacency_step placed_rooms_moved)
next
  show "room_id q \<in> set (get_or_empty (adjacency_graph self) (room_id r))
        \<and> room_id r \<in> set (get_or_empty (adjacency_graph self) (room_id q))
        \<and> is_adjacent r q \<longrightarrow> adjacency_gain self r q = 3 / 2"
    by (simp add: adjacency_gain_def)
qed

theorem adjacency_heuristic_sum_witness:
  "fst (u_get_adjacency_score pair_self pair_store 0 (0, 0) False)
     = adjacency_gain pair_self (heap (moved pair_store 0 (0, 0) False) 0)
                                (heap (moved pair_store 0 (0, 0) False) 1)
   \<and> adjacency_gain pair_self (heap (moved pair_store 0 (0, 0) False) 0)
                                (heap (moved pair_store 0 (0, 0) False) 1) = 3 / 2"
proof -
  let ?r = "heap (moved pair_store 0 (0, 0) False) 0"
  let ?q = "heap (moved pair_store 0 (0, 0) False) 1"
  have h: "room_id ?q \<in> set (get_or_empty (adjacency_graph pair_self) (room_id ?r))
        \<and> room_id ?r \<in> set (get_or_empty (adjacency_graph pair_self) (room_id ?q))
        \<and> is_adjacent ?r ?q"
    by (simp add: pair_self_def pair_store_def moved_def orient_def eval_defs)
  have p: "placed_rooms pair_store = [1]"
    by (simp add: pair_store_def)
  from adjacency_heuristic_sum [of pair_self pair_store 0 "(0, 0)" False ?q ?r] h p
  show ?thesis by simp
qed

text \<open>
  C10, as stated, fails: room 1 and room 2 require each other, room 2 is placed at
  \<open>(1, 0)\<close>, and room 1 is scored at \<open>(0, 0)\<close>, where the two are adjacent. The pair
  contributes 3/2, not 1.
\<close>

theorem symmetric_pair_scores_three_halves:
  "2 \<in> set (get_or_empty (adjacency_graph pair_self) 1)
   \<and> 1 \<in> set (get_or_empty (adjacency_graph pair_self) 2)
   \<and> placed_rooms pair_store = [1]
   \<and> fst (u_get_adjacency_score pair_self pair_store 0 (0, 0) False) = 3 / 2
   \<and> fst (u_get_adjacency_score pair_self pair_store 0 (0, 0) False) \<noteq> 1"
  by (simp add: pair_self_def pair_store_def eval_defs)

subsection \<open>The reported adjacency score\<close>

lemma neighbor_step_le:
  "fst acc \<le> snd acc \<Longrightarrow> fst (neighbor_step st a n acc) \<le> snd (neighbor_step st a n acc)"
  by (cases acc) (simp add: neighbor_step_def)

lemma neighbor_step_total: "snd (neighbor_step st a n acc) = snd acc + 1"
  by (cases acc) (simp add: neighbor_step_def)

lemma fold_neighbor_step_le:
  "fst acc \<le> snd acc \<Longrightarrow>
   fst (fold (neighbor_step st a) ns acc) \<le> snd (fold (neighbor_step st a) ns acc)"
  by (induction ns arbitrary: acc) (simp_all add: neighbor_step_le)

lemma fold_neighbor_step_total:
  "snd (fold (neighbor_step st a) ns acc) = snd acc + length ns"
  by (induction ns arbitrary: acc) (simp_all add: neighbor_step_total)

lemma fold_rooms_le:
  "fst acc \<le> snd acc \<Longrightarrow>
   fst (fold (\<lambda>room1 acc. fold (neighbor_step st room1) (f room1) acc) ps acc)
     \<le> snd (fold (\<lambda>room1 acc. fold (neighbor_step st room1) (f room1) acc) ps acc)"
  by (induction ps arbitrary: acc) (simp_all add: fold_neighbor_step_le)

lemma fold_rooms_total:
  "snd (fold (\<lambda>room1 acc. fold (neighbor_step st room1) (f room1) acc) ps acc)
     = snd acc + sum_list (map (\<lambda>a. length (f a)) ps)"
  by (induction ps arbitrary: acc) (simp_all add: fold_neighbor_step_total)

text \<open>
  C9. \<^verbatim>\<open>get_adjacency_score\<close> returns \<open>(satisfied, total, ratio)\<close> with
  \<open>satisfied \<le> total\<close>; the ratio is \<open>satisfied / total\<close> when \<open>total > 0\<close> and 1 when
  \<open>total = 0\<close>, so it lies between 0 and 1. The total is the number of requirement
  entries of the placed rooms, so the ratio is 1 when there is no requirement.
\<close>

theorem adjacency_score_ratio:
  "get_adjacency_score self st = (satisfied, tot, ratio) \<Longrightarrow>
     satisfied \<le> tot
     \<and> (tot > 0 \<longrightarrow> ratio = of_nat satisfied / of_nat tot)
     \<and> (tot = 0 \<longrightarrow> ratio = 1)
     \<and> 0 \<le> ratio \<and> ratio \<le> 1
     \<and> tot = sum_list (map (\<lambda>a. length (get_or_empty (adjacency self) (room_id (heap st a))))
                         (placed_rooms st))"
proof -
  assume a: "get_adjacency_score self st = (satisfied, tot, ratio)"
  define acc where "acc = fold (\<lambda>room1 acc.
                   fold (neighbor_step st room1)
                     (get_or_empty (adjacency self) (room_id (heap st room1))) acc)
             (placed_rooms st) (0, 0)"
  have le: "fst acc \<le> snd acc"
    unfolding acc_def by (rule fold_rooms_le) simp
  have tot: "snd acc = sum_list (map (\<lambda>a. length (get_or_empty (adjacency self) (room_id (heap st a))))
                         (placed_rooms st))"
    unfolding acc_def by (simp add: fold_rooms_total)
  from a have s: "satisfied = fst acc" and t: "tot = snd acc"
    and r: "ratio = (if tot > 0 then of_nat satisfied / of_nat tot else 1)"
    by (auto simp: get_adjacency_score_def acc_def[symmetric] split: prod.splits)
  have st: "satisfied \<le> tot" using le s t by simp
  have r0: "0 \<le> ratio" using r by simp
  have r1: "ratio \<le> 1" using r st by (simp add: divide_le_eq)
  have rp: "tot > 0 \<longrightarrow> ratio = of_nat satisfied / of_nat tot" using r by simp
  have rz: "tot = 0 \<longrightarrow> ratio = 1" using r by simp
  have tt: "tot = sum_list (map (\<lambda>a. length (get_or_empty (adjacency self) (room_id (heap st a))))
                         (placed_rooms st))" using t tot by simp
  from st rp rz r0 r1 tt show ?thesis by blast
qed

theorem adjacency_score_ratio_witness:
  "get_adjacency_score pair_self pair_done = (2, 2, 1)
   \<and> snd (snd (get_adjacency_score pair_self pair_done)) \<le> 1
   \<and> fst (get_adjacency_score pair_self pair_done) \<le> fst (snd (get_adjacency_score pair_self pair_done))"
proof -
  have h: "get_adjacency_score pair_self pair_done = (2, 2, 1)"
    by (simp add: pair_self_def pair_done_def eval_defs)
  from adjacency_score_ratio [OF h] h show ?thesis by simp
qed

subsection \<open>An empty room list\<close>

lemma clear_placements_empty:
  "rooms self = [] \<Longrightarrow> clear_placements self st = st\<lparr>placed_rooms := []\<rparr>"
  by (simp add: clear_placements_def)

lemma sort_rooms_empty: "rooms self = [] \<Longrightarrow> sort_rooms self st = Inr []"
  by (simp add: sort_rooms_def)

lemma get_adjacency_score_empty:
  "placed_rooms st = [] \<Longrightarrow> get_adjacency_score self st = (0, 0, 1)"
  by (simp add: get_adjacency_score_def)

lemma backtracking_no_rooms:
  "rooms self = [] \<Longrightarrow> placed_rooms st = [] \<Longrightarrow>
   \<exists>ok st'. u_place_room_backtracking time_time self st 0 ts = Inr (ok, st') \<and> placed_rooms st' = []"
  by (auto simp: u_place_room_backtracking.simps check_timeout_def split: option.splits)

text \<open>
  C2. With an empty room list, \<^verbatim>\<open>place_rooms\<close> returns (it raises nothing) with count 0
  and an empty placed list, and \<^verbatim>\<open>get_adjacency_score\<close> then returns \<open>(0, 0, 1)\<close>. This
  holds for every configuration, every sort method and every behaviour of the clock;
  the region list may be anything.
\<close>

theorem place_rooms_empty_room_list:
  "rooms self = [] \<Longrightarrow>
     \<exists>self' st'. place_rooms time_time self st = Inr (0, self', st')
        \<and> placed_rooms st' = [] \<and> get_adjacency_score self' st' = (0, 0, 1)"
proof -
  assume e: "rooms self = []"
  let ?st2 = "(st\<lparr>placed_rooms := []\<rparr>)\<lparr>clock := clock (st\<lparr>placed_rooms := []\<rparr>) + 1\<rparr>"
  let ?self1 = "self\<lparr>rooms := []\<rparr>"
  obtain ok st3 where bt: "u_place_room_backtracking time_time ?self1 ?st2 0 (Some (time_time (clock (st\<lparr>placed_rooms := []\<rparr>)))) = Inr (ok, st3)"
    and p3: "placed_rooms st3 = []"
    using backtracking_no_rooms[where self = ?self1 and st = ?st2 and time_time = time_time
        and ts = "Some (time_time (clock (st\<lparr>placed_rooms := []\<rparr>)))"] by auto
  show ?thesis
  proof (cases ok)
    case True
    then show ?thesis using e bt p3
      by (simp add: place_rooms_def clear_placements_empty sort_rooms_empty rbind_Inr Let_def
          get_adjacency_score_empty)
  next
    case False
    then show ?thesis using e bt p3
      by (simp add: place_rooms_def clear_placements_empty sort_rooms_empty rbind_Inr Let_def
          u_place_rooms_greedy_def get_adjacency_score_empty)
  qed
qed

theorem place_rooms_empty_room_list_witness:
  "rooms (RegionBasedPlacement [] [PlotRegion 0 0 5 5] Map.empty) = []
   \<and> sort_method (RegionBasedPlacement [] [PlotRegion 0 0 5 5] Map.empty) = ''hybrid''
   \<and> (\<exists>self' st'. place_rooms (\<lambda>n. of_nat n) (RegionBasedPlacement [] [PlotRegion 0 0 5 5] Map.empty)
                      (fresh_store []) = Inr (0, self', st')
          \<and> placed_rooms st' = [] \<and> get_adjacency_score self' st' = (0, 0, 1))"
proof -
  have h: "rooms (RegionBasedPlacement [] [PlotRegion 0 0 5 5] Map.empty) = []"
    by (simp add: RegionBasedPlacement_def)
  have m: "sort_method (RegionBasedPlacement [] [PlotRegion 0 0 5 5] Map.empty) = ''hybrid''"
    by (simp add: RegionBasedPlacement_def)
  from place_rooms_empty_room_list [OF h, of "\<lambda>n. of_nat n" "fresh_store []"] h m
  show ?thesis by blast
qed

subsection \<open>Where the code departs from its own description\<close>

text \<open>
  C5. The adjacency-driven branch proposes rotated placements although rotation is
  switched off: with \<^verbatim>\<open>optimize_rotations = False\<close>, a unit room placed at \<open>(0, 0)\<close> and a
  1 by 2 room next, the returned list holds candidates with \<open>is_rotated = True\<close>.
\<close>

theorem rotated_candidates_with_rotation_disabled:
  "optimize_rotations norot_self = False
   \<and> map_option (list_ex cand_rotated)
        (candidates_of (u_generate_candidate_positions norot_self norot_store 1)) = Some True"
  by (simp add: norot_self_def norot_store_def eval_defs cong: rbind_weak_cong)

text \<open>
  C6. \<^verbatim>\<open>_place_room_backtracking\<close> returns failure and leaves the room rotated: the 2 by 1
  room at address 0 enters unrotated and comes back with its position and region
  cleared, but 1 by 2 and with the rotated flag set.
\<close>

theorem backtracking_failure_leaves_room_rotated:
  "heap tight_store 0
     = \<lparr>room_id = 1, width = 2, height = 1, pos = None, region = None, rotated = False\<rparr>
   \<and> flag_of (u_place_room_backtracking (\<lambda>n. 0) tight_self tight_store 0 None) = Some False
   \<and> room_after (u_place_room_backtracking (\<lambda>n. 0) tight_self tight_store 0 None) 0
       = Some \<lparr>room_id = 1, width = 1, height = 2, pos = None, region = None, rotated = True\<rparr>"
  by (simp add: tight_self_def tight_store_def eval_defs cong: rbind_weak_cong)

text \<open>
  C7. \<^verbatim>\<open>clear_placements\<close> resets the rotated flag without swapping the sizes back: a
  2 by 1 room that a run placed rotated is, after \<^verbatim>\<open>clear_placements\<close>, an unrotated
  1 by 2 room.
\<close>

theorem clear_placements_keeps_swapped_dimensions:
  "heap narrow_store 0
     = \<lparr>room_id = 1, width = 2, height = 1, pos = None, region = None, rotated = False\<rparr>
   \<and> cleared_room_of (place_rooms (\<lambda>n. 100 + of_nat n / 1000) narrow_self narrow_store) 0
       = Some \<lparr>room_id = 1, width = 1, height = 2, pos = None, region = None, rotated = False\<rparr>"
  by (simp add: narrow_self_def narrow_store_def eval_defs cong: rbind_weak_cong)

text \<open>
  C8. The greedy pass leaves the last tried position on a room it could not place: the
  backtracking search fails (the clock advances by a millisecond per reading, far from
  the timeout), the greedy pass places two of the three unit rooms, and the third, which
  is not in the placed list, keeps the position \<open>(0, 0)\<close>.
\<close>

theorem greedy_leaves_position_on_unplaced_room:
  "outcome_of (place_rooms (\<lambda>n. 100 + of_nat n / 1000) crowded_self crowded_store) 2
     = Some (2, [0, 1],
         \<lparr>room_id = 3, width = 1, height = 1, pos = Some (0, 0), region = None, rotated = True\<rparr>)"
  by (simp add: crowded_self_def crowded_store_def eval_defs cong: rbind_weak_cong)

text \<open>
  C3. With the timeout 0, a clock that returns the same reading twice lets the
  backtracking search run: it places both rooms, where the greedy pass, which runs
  when the clock advances, places one.
\<close>

theorem timeout_zero_backtracks_when_clock_stalls:
  "timeout trap_self = 0
   \<and> count_of (place_rooms (\<lambda>n. 100) trap_self trap_store) = Some 2
   \<and> count_of (place_rooms (\<lambda>n. 100 + of_nat n / 1000) trap_self trap_store) = Some 1"
  by (simp add: trap_self_def trap_store_def eval_defs cong: rbind_weak_cong)

text \<open>
  C4, as stated, fails: a room is placed, the adjacency-driven generation yields no
  candidate for the next room, and the generator returns the empty list although the
  grid position \<open>(10, 10)\<close> of the second region fits the room.
\<close>

theorem no_grid_fallback_counterexample:
  "placed_rooms far_store = [0]
   \<and> candidates_of (u_generate_candidate_positions far_self far_store 1) = Some []
   \<and> PlotRegion 10 10 12 12 \<in> set (regions far_self)
   \<and> contains (PlotRegion 10 10 12 12) (heap far_store 1) 10 10
   \<and> get_sample_positions (PlotRegion 10 10 12 12) (heap far_store 1) (step_size far_self)
       = Some [(10, 10)]"
  by (simp add: far_self_def far_store_def eval_defs cong: rbind_weak_cong)

subsection \<open>Every generated candidate fits its region\<close>

lemma rbind_eq_Inr: "rbind m f = Inr w \<Longrightarrow> \<exists>v. m = Inr v \<and> f v = Inr w"
  by (cases m) (simp_all add: rbind_def)

lemma upd_rotate_twice: "upd (upd st a rotate_room) a rotate_room = st"
  by (simp add: upd_upd upd_id)

lemma upd_orient_twice: "upd (upd st a (orient b)) a (orient c) = upd st a (orient c)"
  by (simp add: upd_upd)

lemma touches_only_orient: "touches_only a st (upd st a (orient b))"
  by (simp add: touches_only_upd)

lemma score_positions_ok:
  "score_positions r rg rot ps cands = Inr cands' \<Longrightarrow>
   width (orient rot r0) = width r \<Longrightarrow> height (orient rot r0) = height r \<Longrightarrow>
   \<forall>c\<in>set cands. cand_ok r0 c \<Longrightarrow> \<forall>c\<in>set cands'. cand_ok r0 c"
proof (induction ps arbitrary: cands)
  case Nil
  then show ?case by simp
next
  case (Cons p ps)
  from Cons.prems(1) obtain f where f: "u_get_region_fit_score r rg (fst p) (snd p) = Inr f"
    and rest: "score_positions r rg rot ps (if f > 0 then cands @ [(p, rg, rot, f)] else cands) = Inr cands'"
    by (auto dest!: rbind_eq_Inr)
  have "\<forall>c\<in>set (if f > 0 then cands @ [(p, rg, rot, f)] else cands). cand_ok r0 c"
    using Cons.prems(2,3,4) fit_score_positive [OF f] by (auto simp: cand_ok_def contains_def)
  from Cons.IH [OF rest Cons.prems(2,3) this] show ?case .
qed

lemma sample_and_score_ok:
  "sample_and_score self st a rg rot cands = Inr cands' \<Longrightarrow>
   width (orient rot r0) = width (heap st a) \<Longrightarrow> height (orient rot r0) = height (heap st a) \<Longrightarrow>
   \<forall>c\<in>set cands. cand_ok r0 c \<Longrightarrow> \<forall>c\<in>set cands'. cand_ok r0 c"
  unfolding sample_and_score_def
  by (cases "get_sample_positions rg (heap st a) (step_size self)")
     (simp_all add: score_positions_ok)

lemma grid_regions_ok:
  "grid_regions self st a rgs cands = Inr (cands', st') \<Longrightarrow> \<not> rotated (heap st a) \<Longrightarrow>
   \<forall>c\<in>set cands. cand_ok (heap st a) c \<Longrightarrow>
   st' = st \<and> (\<forall>c\<in>set cands'. cand_ok (heap st a) c)"
proof (induction rgs arbitrary: cands)
  case Nil
  then show ?case by simp
next
  case (Cons rg rgs)
  let ?r = "heap st a"
  from Cons.prems(1) obtain c1 where c1: "sample_and_score self st a rg False cands = Inr c1"
    and rest: "(if optimize_rotations self then
         (let st1 = upd st a rotate_room in
          rbind (sample_and_score self st1 a rg True c1) (\<lambda>candidates2.
            grid_regions self (upd st1 a rotate_room) a rgs candidates2))
       else grid_regions self st a rgs c1) = Inr (cands', st')"
    by (auto dest!: rbind_eq_Inr)
  have o1: "orient False ?r = ?r" using Cons.prems(2) by (simp add: orient_same)
  have ok1: "\<forall>c\<in>set c1. cand_ok ?r c"
    using sample_and_score_ok [OF c1, of ?r] Cons.prems(3) o1 by simp
  show ?case
  proof (cases "optimize_rotations self")
    case False
    with rest have "grid_regions self st a rgs c1 = Inr (cands', st')" by simp
    from Cons.IH [OF this Cons.prems(2) ok1] show ?thesis .
  next
    case True
    with rest obtain c2 where c2: "sample_and_score self (upd st a rotate_room) a rg True c1 = Inr c2"
      and rest2: "grid_regions self st a rgs c2 = Inr (cands', st')"
      by (auto simp: Let_def upd_rotate_twice dest!: rbind_eq_Inr)
    have o2: "orient True ?r = rotate_room ?r" using Cons.prems(2) by (simp add: orient_def)
    have ok2: "\<forall>c\<in>set c2. cand_ok ?r c"
      using sample_and_score_ok [OF c2, of ?r] ok1 o2 by simp
    from Cons.IH [OF rest2 Cons.prems(2) ok2] show ?thesis .
  qed
qed

lemma adj_regions_ok:
  "adj_regions self st a p rot rgs cands = Inr (cands', st') \<Longrightarrow> rotated (heap st a) = rot \<Longrightarrow>
   \<forall>c\<in>set cands. cand_ok (heap st a) c \<Longrightarrow>
   st' = st \<and> (\<forall>c\<in>set cands'. cand_ok (heap st a) c)"
proof (induction rgs arbitrary: cands)
  case Nil
  then show ?case by simp
next
  case (Cons rg rgs)
  let ?r = "heap st a"
  from Cons.prems(1) obtain f where f: "u_get_region_fit_score ?r rg (fst p) (snd p) = Inr f"
    and rest: "(if f > 0 then
         (case u_get_adjacency_score self st a p rot of
            (adj_score, st1) \<Rightarrow>
              adj_regions self st1 a p rot rgs
                (cands @ [(p, rg, rot, 4 / 5 * adj_score + 1 / 5 * f)]))
       else adj_regions self st a p rot rgs cands) = Inr (cands', st')"
    by (auto dest!: rbind_eq_Inr)
  show ?case
  proof (cases "f > 0")
    case False
    with rest have "adj_regions self st a p rot rgs cands = Inr (cands', st')" by simp
    from Cons.IH [OF this Cons.prems(2,3)] show ?thesis .
  next
    case True
    obtain sc st1 where sc: "u_get_adjacency_score self st a p rot = (sc, st1)"
      by (cases "u_get_adjacency_score self st a p rot") auto
    have st1: "st1 = st" using adjacency_score_restores [of self st a p rot] sc by simp
    from True rest sc st1
    have r: "adj_regions self st a p rot rgs (cands @ [(p, rg, rot, 4 / 5 * sc + 1 / 5 * f)]) = Inr (cands', st')"
      by simp
    have "contains rg ?r (fst p) (snd p)" using fit_score_positive [OF f True] .
    then have "cand_ok ?r (p, rg, rot, 4 / 5 * sc + 1 / 5 * f)"
      using Cons.prems(2) by (simp add: cand_ok_def orient_same)
    with Cons.prems(3) have "\<forall>c\<in>set (cands @ [(p, rg, rot, 4 / 5 * sc + 1 / 5 * f)]). cand_ok ?r c"
      by simp
    from Cons.IH [OF r Cons.prems(2) this] show ?thesis .
  qed
qed

lemma adj_positions_ok:
  "adj_positions self st a ps cands = Inr (cands', st') \<Longrightarrow>
   \<forall>c\<in>set cands. cand_ok (heap st a) c \<Longrightarrow>
   touches_only a st st' \<and> (\<forall>c\<in>set cands'. cand_ok (heap st a) c)"
proof (induction ps arbitrary: st cands)
  case Nil
  then show ?case by simp
next
  case (Cons q ps)
  obtain x y rot where q: "q = (x, y, rot)" by (cases q) auto
  let ?st1 = "upd st a (orient rot)"
  from Cons.prems(1) obtain c1 st2 where
    r1: "adj_regions self ?st1 a (x, y) rot (regions self) cands = Inr (c1, st2)"
    and rest: "adj_positions self (upd st2 a (orient rot)) a ps c1 = Inr (cands', st')"
    by (auto simp: q Let_def rotate_step_orient' dest!: rbind_eq_Inr)
  have sh: "same_shape (heap st a) (heap ?st1 a)" by simp
  have pre: "\<forall>c\<in>set cands. cand_ok (heap ?st1 a) c"
    using Cons.prems(2) cand_ok_same_shape [OF sh] by simp
  from adj_regions_ok [OF r1 _ pre] have st2: "st2 = ?st1" and ok1: "\<forall>c\<in>set c1. cand_ok (heap ?st1 a) c"
    by simp_all
  from rest st2 have rest': "adj_positions self ?st1 a ps c1 = Inr (cands', st')"
    by (simp add: upd_orient_twice)
  from Cons.IH [OF rest' ok1] have t: "touches_only a ?st1 st'" and ok: "\<forall>c\<in>set cands'. cand_ok (heap ?st1 a) c"
    by simp_all
  from touches_only_trans [OF touches_only_orient t] ok cand_ok_same_shape [OF sh]
  show ?case by simp
qed

lemma adj_targets_ok:
  "adj_targets self st a ts cands = Inr (cands', st') \<Longrightarrow>
   \<forall>c\<in>set cands. cand_ok (heap st a) c \<Longrightarrow>
   touches_only a st st' \<and> (\<forall>c\<in>set cands'. cand_ok (heap st a) c)"
proof (induction ts arbitrary: st cands)
  case Nil
  then show ?case by simp
next
  case (Cons t ts)
  from Cons.prems(1) obtain ps c1 st1 where
    r1: "adj_positions self st a ps cands = Inr (c1, st1)"
    and rest: "adj_targets self st1 a ts c1 = Inr (cands', st')"
    by (auto dest!: rbind_eq_Inr)
  from adj_positions_ok [OF r1 Cons.prems(2)]
  have t1: "touches_only a st st1" and ok1: "\<forall>c\<in>set c1. cand_ok (heap st a) c" by simp_all
  have sh: "same_shape (heap st a) (heap st1 a)" using t1 by (simp add: touches_only_def)
  have "\<forall>c\<in>set c1. cand_ok (heap st1 a) c" using ok1 cand_ok_same_shape [OF sh] by simp
  from Cons.IH [OF rest this] have t2: "touches_only a st1 st'" and ok: "\<forall>c\<in>set cands'. cand_ok (heap st1 a) c"
    by simp_all
  from touches_only_trans [OF t1 t2] ok cand_ok_same_shape [OF sh] show ?case by simp
qed

lemma generate_candidates_ok:
  assumes "u_generate_candidate_positions self st a = Inr (cands, st')"
    and "placed_rooms st = [] \<longrightarrow> \<not> rotated (heap st a)"
  shows "touches_only a st st' \<and> (\<forall>c\<in>set cands. cand_ok (heap st a) c)"
proof -
  define req where "req = set (get_or_empty (adjacency_graph self) (room_id (heap st a)))"
  define ts0 where "ts0 = filter (\<lambda>p. room_id (heap st p) \<in> req) (placed_rooms st)"
  define ts where "ts = (if ts0 = [] \<and> placed_rooms st \<noteq> [] then placed_rooms st else ts0)"
  from assms(1) obtain c0 where
    r: "(if ts = [] then grid_regions self st a (regions self) [] else adj_targets self st a ts []) = Inr (c0, st')"
    and c: "cands = sort_key (\<lambda>c. - cand_score c) c0"
    unfolding u_generate_candidate_positions_def Let_def req_def [symmetric] ts0_def [symmetric] ts_def [symmetric]
    by (auto dest!: rbind_eq_Inr)
  have "touches_only a st st' \<and> (\<forall>c\<in>set c0. cand_ok (heap st a) c)"
  proof (cases "ts = []")
    case True
    then have "placed_rooms st = []" by (auto simp: ts_def split: if_splits)
    with assms(2) have nr: "\<not> rotated (heap st a)" by simp
    from True r have "grid_regions self st a (regions self) [] = Inr (c0, st')" by simp
    from grid_regions_ok [OF this nr] show ?thesis by simp
  next
    case False
    with r have "adj_targets self st a ts [] = Inr (c0, st')" by simp
    from adj_targets_ok [OF this] show ?thesis by simp
  qed
  then show ?thesis by (simp add: c)
qed

subsection \<open>The backtracking search keeps the invariant\<close>

lemma frame_refl [simp]: "frame st st"
  by (simp add: frame_def)

lemma frame_trans: "frame st st' \<Longrightarrow> frame st' st'' \<Longrightarrow> frame st st''"
  by (simp add: frame_def)

lemma touches_only_frame:
  "touches_only a st st' \<Longrightarrow> a \<notin> set (placed_rooms st) \<Longrightarrow> frame st st'"
  by (auto simp: touches_only_def frame_def)

lemma frame_invariant: "frame st st' \<Longrightarrow> placement_invariant st \<Longrightarrow> placement_invariant st'"
  by (simp add: frame_def placement_invariant_def no_overlap_def)

lemma has_overlap_iff:
  "has_overlap st a = (\<exists>p\<in>set (placed_rooms st). overlaps (heap st a) (heap st p))"
  by (simp add: has_overlap_def list_ex_iff)

lemma invariant_place:
  assumes "placement_invariant st" "a \<notin> set (placed_rooms st)" "placed_ok (heap st a)"
    "\<not> has_overlap st a"
  shows "placement_invariant (st\<lparr>placed_rooms := placed_rooms st @ [a]\<rparr>)"
proof -
  have "\<forall>p\<in>set (placed_rooms st). \<not> overlaps (heap st a) (heap st p) \<and> \<not> overlaps (heap st p) (heap st a)"
    using assms(4) overlaps_sym by (auto simp: has_overlap_iff)
  with assms(1,2,3) show ?thesis
    by (auto simp: placement_invariant_def no_overlap_def)
qed

lemma search_post_frame:
  "frame st st1 \<Longrightarrow> search_post self st1 res \<Longrightarrow> search_post self st res"
  by (auto simp: search_post_def intro: frame_trans split: if_splits)

lemma search_post_ok:
  "search_post self st res \<Longrightarrow> res = Inr (True, st') \<Longrightarrow>
   placement_invariant st' \<and> set (placed_rooms st') \<subseteq> set (rooms self)"
  by (auto simp: search_post_def)

lemma search_post_fail: "search_post self st res \<Longrightarrow> res = Inr (False, st') \<Longrightarrow> frame st st'"
  by (auto simp: search_post_def)

lemma search_post_True [simp]:
  "search_post self st (Inr (True, st')) =
     (placement_invariant st' \<and> set (placed_rooms st') \<subseteq> set (rooms self))"
  by (auto simp: search_post_def)

lemma search_post_False [simp]: "search_post self st (Inr (False, st')) = frame st st'"
  by (auto simp: search_post_def)

lemma search_post_Inl [simp]: "search_post self st (Inl e)"
  by (simp add: search_post_def)

lemma nth_notin_take: "distinct xs \<Longrightarrow> i < length xs \<Longrightarrow> xs ! i \<notin> set (take i xs)"
proof -
  assume d: "distinct xs" and i: "i < length xs"
  have "xs = take i xs @ xs ! i # drop (Suc i) xs" using i by (rule id_take_nth_drop)
  with d have "distinct (take i xs @ xs ! i # drop (Suc i) xs)" by simp
  then show ?thesis by simp
qed

lemma check_timeout_keeps:
  "check_timeout t self st ts = (e, st0) \<Longrightarrow> heap st0 = heap st \<and> placed_rooms st0 = placed_rooms st"
  by (auto simp: check_timeout_def split: option.splits if_splits)

lemma placed_ok_candidate:
  "cand_ok r (p, rg, rot, sc) \<Longrightarrow>
   placed_ok ((orient rot r)\<lparr>pos := Some p, region := Some rg\<rparr>)"
  by (cases p) (simp add: placed_ok_def cand_ok_def contains_def)

lemma try_candidates_Cons:
  "try_candidates t self st idx ts ((p, rg, rot, sc) # cs) =
     (let a = rooms self ! idx;
          st2 = upd st a (\<lambda>r. (orient rot r)\<lparr>pos := Some p, region := Some rg\<rparr>)
      in if \<not> has_overlap st2 a then
           (case u_place_room_backtracking t self
                   (st2\<lparr>placed_rooms := placed_rooms st2 @ [a]\<rparr>) (Suc idx) ts of
              Inl e \<Rightarrow> Inl e
            | Inr (ok, st3) \<Rightarrow>
                if ok then Inr (True, st3)
                else try_candidates t self
                       (st3\<lparr>placed_rooms := remove1 a (placed_rooms st3)\<rparr>) idx ts cs)
         else try_candidates t self st2 idx ts cs)"
proof -
  have "upd (if rot \<noteq> rotated (heap st (rooms self ! idx))
             then upd st (rooms self ! idx) rotate_room else st) (rooms self ! idx)
          (\<lambda>r. r\<lparr>pos := Some p, region := Some rg\<rparr>)
        = upd st (rooms self ! idx) (\<lambda>r. (orient rot r)\<lparr>pos := Some p, region := Some rg\<rparr>)"
    by (auto simp: upd_def orient_def)
  then show ?thesis
    by (simp only: try_candidates.simps Let_def Suc_eq_plus1)
qed

declare try_candidates.simps(2) [simp del]

lemma try_candidates_post:
  assumes H: "\<And>st. placement_invariant st \<Longrightarrow>
                 set (placed_rooms st) \<subseteq> set (take (Suc idx) (rooms self)) \<Longrightarrow>
                 placed_rooms st \<noteq> [] \<Longrightarrow>
                 search_post self st (u_place_room_backtracking t self st (Suc idx) ts)"
    and d: "distinct (rooms self)" and i: "idx < length (rooms self)"
  shows "placement_invariant st \<Longrightarrow> set (placed_rooms st) \<subseteq> set (take idx (rooms self)) \<Longrightarrow>
         \<forall>c\<in>set cs. cand_ok (heap st (rooms self ! idx)) c \<Longrightarrow>
         search_post self st (try_candidates t self st idx ts cs)"
proof (induction cs arbitrary: st)
  case Nil
  let ?a = "rooms self ! idx"
  have a: "?a \<notin> set (placed_rooms st)" using Nil.prems(2) nth_notin_take [OF d i] by auto
  have "touches_only ?a st (upd st ?a (\<lambda>r. r\<lparr>pos := None, region := None\<rparr>))"
    by (rule touches_only_upd) (simp add: same_shape_def orient_def rotate_room_def)
  from touches_only_frame [OF this a] show ?case
    by simp
next
  case (Cons c cs)
  let ?a = "rooms self ! idx"
  obtain p rg rot sc where c: "c = (p, rg, rot, sc)" by (cases c) auto
  have a: "?a \<notin> set (placed_rooms st)" using Cons.prems(2) nth_notin_take [OF d i] by auto
  define st2 where "st2 = upd st ?a (\<lambda>r. (orient rot r)\<lparr>pos := Some p, region := Some rg\<rparr>)"
  define st3 where "st3 = st2\<lparr>placed_rooms := placed_rooms st2 @ [?a]\<rparr>"
  have unfold: "try_candidates t self st idx ts (c # cs) =
     (if \<not> has_overlap st2 ?a then
        (case u_place_room_backtracking t self st3 (Suc idx) ts of
           Inl e \<Rightarrow> Inl e
         | Inr (ok, st4) \<Rightarrow>
             if ok then Inr (True, st4)
             else try_candidates t self
                    (st4\<lparr>placed_rooms := remove1 ?a (placed_rooms st4)\<rparr>) idx ts cs)
      else try_candidates t self st2 idx ts cs)"
    by (simp add: c try_candidates_Cons Let_def st2_def st3_def)
  have sh: "same_shape (heap st ?a) (heap st2 ?a)"
    by (simp add: st2_def same_shape_def orient_def rotate_room_def)
  have t2: "touches_only ?a st st2"
    unfolding st2_def by (rule touches_only_upd) (simp add: same_shape_def orient_def rotate_room_def)
  have f2: "frame st st2" using touches_only_frame [OF t2 a] .
  have inv2: "placement_invariant st2" using frame_invariant [OF f2 Cons.prems(1)] .
  have p2: "placed_rooms st2 = placed_rooms st" by (simp add: st2_def)
  have ok2: "\<forall>c\<in>set cs. cand_ok (heap st2 ?a) c"
    using Cons.prems(3) cand_ok_same_shape [OF sh] by simp
  show ?case
  proof (cases "has_overlap st2 ?a")
    case True
    have "search_post self st2 (try_candidates t self st2 idx ts cs)"
      using Cons.IH [OF inv2 _ ok2] Cons.prems(2) p2 by simp
    from search_post_frame [OF f2 this] True show ?thesis
      by (simp add: unfold)
  next
    case False
    have pk: "placed_ok (heap st2 ?a)"
      using Cons.prems(3) placed_ok_candidate [of "heap st ?a" p rg rot sc] by (simp add: c st2_def)
    have inv3: "placement_invariant st3"
      unfolding st3_def using invariant_place [OF inv2 _ pk False] a p2 by simp
    have sub3: "set (placed_rooms st3) \<subseteq> set (take (Suc idx) (rooms self))"
      using Cons.prems(2) i by (auto simp: st3_def p2 take_Suc_conv_app_nth)
    have post3: "search_post self st3 (u_place_room_backtracking t self st3 (Suc idx) ts)"
      using H [OF inv3 sub3] by (simp add: st3_def)
    show ?thesis
    proof (cases "u_place_room_backtracking t self st3 (Suc idx) ts")
      case (Inl e)
      with False show ?thesis by (simp add: unfold)
    next
      case (Inr v)
      obtain ok st4 where v: "v = (ok, st4)" by (cases v) auto
      show ?thesis
      proof (cases ok)
        case True
        with post3 Inr v have "placement_invariant st4 \<and> set (placed_rooms st4) \<subseteq> set (rooms self)"
          by simp
        with True Inr v False show ?thesis
          by (simp add: unfold)
      next
        case nok: False
        with post3 Inr v have f34: "frame st3 st4" by simp
        define st5 where "st5 = st4\<lparr>placed_rooms := remove1 ?a (placed_rooms st4)\<rparr>"
        have p4: "placed_rooms st4 = placed_rooms st @ [?a]"
          using f34 by (simp add: frame_def st3_def p2)
        have p5: "placed_rooms st5 = placed_rooms st"
          using a by (simp add: st5_def p4 remove1_append)
        have h4: "\<forall>b\<in>set (placed_rooms st @ [?a]). heap st4 b = heap st2 b"
          using f34 by (simp add: frame_def st3_def p2)
        have h5: "heap st5 = heap st4" by (simp add: st5_def)
        have f5: "frame st st5"
          using h4 f2 by (auto simp: frame_def p5 h5 p2)
        have inv5: "placement_invariant st5" using frame_invariant [OF f5 Cons.prems(1)] .
        have "heap st5 ?a = heap st2 ?a" using h4 by (simp add: h5)
        with ok2 have ok5: "\<forall>c\<in>set cs. cand_ok (heap st5 ?a) c" by simp
        have "search_post self st5 (try_candidates t self st5 idx ts cs)"
          using Cons.IH [OF inv5 _ ok5] Cons.prems(2) p5 by simp
        from search_post_frame [OF f5 this] nok Inr v False show ?thesis
          by (simp add: unfold st5_def)
      qed
    qed
  qed
qed

lemma backtracking_post:
  "distinct (rooms self) \<Longrightarrow> placement_invariant st \<Longrightarrow>
   set (placed_rooms st) \<subseteq> set (take idx (rooms self)) \<Longrightarrow>
   (placed_rooms st = [] \<longrightarrow> idx < length (rooms self) \<longrightarrow> \<not> rotated (heap st (rooms self ! idx))) \<Longrightarrow>
   search_post self st (u_place_room_backtracking t self st idx ts)"
proof (induction "length (rooms self) - idx" arbitrary: idx st)
  case 0
  obtain e st0 where ct: "check_timeout t self st ts = (e, st0)"
    by (cases "check_timeout t self st ts") auto
  from check_timeout_keeps [OF ct] have k: "heap st0 = heap st" "placed_rooms st0 = placed_rooms st"
    by simp_all
  then have f: "frame st st0" by (simp add: frame_def)
  have inv0: "placement_invariant st0" using frame_invariant [OF f "0.prems"(2)] .
  have "set (placed_rooms st0) \<subseteq> set (rooms self)"
    using "0.prems"(3) k(2) by (auto dest: in_set_takeD)
  with "0.hyps" ct f inv0 show ?case
    by (simp add: u_place_room_backtracking.simps)
next
  case (Suc k)
  then have i: "idx < length (rooms self)" by simp
  let ?a = "rooms self ! idx"
  obtain e st0 where ct: "check_timeout t self st ts = (e, st0)"
    by (cases "check_timeout t self st ts") auto
  from check_timeout_keeps [OF ct] have k: "heap st0 = heap st" "placed_rooms st0 = placed_rooms st"
    by simp_all
  then have f: "frame st st0" by (simp add: frame_def)
  have inv0: "placement_invariant st0" using frame_invariant [OF f Suc.prems(2)] .
  have a: "?a \<notin> set (placed_rooms st0)"
    using Suc.prems(3) nth_notin_take [OF Suc.prems(1) i] k(2) by auto
  have H: "\<And>s. placement_invariant s \<Longrightarrow>
                 set (placed_rooms s) \<subseteq> set (take (Suc idx) (rooms self)) \<Longrightarrow>
                 placed_rooms s \<noteq> [] \<Longrightarrow>
                 search_post self s (u_place_room_backtracking t self s (Suc idx) ts)"
    using Suc.hyps(1) [of "Suc idx"] Suc.hyps(2) Suc.prems(1) by simp
  show ?case
  proof (cases e)
    case True
    with ct f show ?thesis by (simp add: u_place_room_backtracking.simps)
  next
    case False
    show ?thesis
    proof (cases "u_generate_candidate_positions self st0 ?a")
      case (Inl x)
      with False ct i show ?thesis by (simp add: u_place_room_backtracking.simps)
    next
      case (Inr v)
      obtain cands st1 where v: "v = (cands, st1)" by (cases v) auto
      have "placed_rooms st0 = [] \<longrightarrow> \<not> rotated (heap st0 ?a)"
        using Suc.prems(4) i k by simp
      from generate_candidates_ok [OF Inr [unfolded v] this]
      have t1: "touches_only ?a st0 st1" and ok: "\<forall>c\<in>set cands. cand_ok (heap st0 ?a) c"
        by simp_all
      have f1: "frame st0 st1" using touches_only_frame [OF t1 a] .
      have inv1: "placement_invariant st1" using frame_invariant [OF f1 inv0] .
      have sh: "same_shape (heap st0 ?a) (heap st1 ?a)" using t1 by (simp add: touches_only_def)
      have ok1: "\<forall>c\<in>set cands. cand_ok (heap st1 ?a) c"
        using ok cand_ok_same_shape [OF sh] by simp
      have sub1: "set (placed_rooms st1) \<subseteq> set (take idx (rooms self))"
        using Suc.prems(3) f1 k(2) by (simp add: frame_def)
      have "search_post self st1 (try_candidates t self st1 idx ts cands)"
        using try_candidates_post [OF H Suc.prems(1) i inv1 sub1 ok1] by simp
      from search_post_frame [OF frame_trans [OF f f1] this] False ct i Inr v show ?thesis
        by (simp add: u_place_room_backtracking.simps)
    qed
  qed
qed

subsection \<open>The greedy pass keeps the invariant\<close>

lemma cand_ok_score: "cand_ok r (p, rg, rot, sc) = cand_ok r (p, rg, rot, sc')"
  by (simp add: cand_ok_def)

lemma good_best_touches:
  assumes t: "touches_only a st st'" and a: "a \<notin> set (placed_rooms st)" and g: "good_best st a b"
  shows "good_best st' a b"
proof -
  obtain bs bp br brg where b: "b = (bs, bp, br, brg)" by (cases b) auto
  have sh: "same_shape (heap st a) (heap st' a)" using t by (simp add: touches_only_def)
  have pl: "placed_rooms st' = placed_rooms st" using t by (simp add: touches_only_def)
  have others: "\<forall>q\<in>set (placed_rooms st). heap st' q = heap st q"
    using t a by (auto simp: touches_only_def)
  show ?thesis
  proof (cases bp)
    case None
    then show ?thesis by (simp add: good_best_def b)
  next
    case (Some p)
    have ov: "\<And>q. overlaps ((orient br (heap st' a))\<lparr>pos := Some p\<rparr>) q
                = overlaps ((orient br (heap st a))\<lparr>pos := Some p\<rparr>) q"
      using same_shape_dims [OF sh, of br] by (intro overlaps_dims) simp_all
    from g Some show ?thesis
      using cand_ok_same_shape [OF sh] others
      by (simp add: good_best_def b pl ov)
  qed
qed

lemma greedy_candidates_Cons:
  "greedy_candidates self st a ((p, rg, rot, sc) # cs) b =
     (let st2 = upd st a (\<lambda>r. (orient rot r)\<lparr>pos := Some p\<rparr>) in
      if \<not> has_overlap st2 a then
        rbind (u_get_region_fit_score (heap st2 a) rg (fst p) (snd p)) (\<lambda>region_score.
          greedy_candidates self st2 a cs
            (if 4 / 5 * fst (u_get_adjacency_score self st2 a p rot) + 1 / 5 * region_score > fst b
             then (4 / 5 * fst (u_get_adjacency_score self st2 a p rot) + 1 / 5 * region_score,
                   Some p, rot, Some rg)
             else b))
      else greedy_candidates self st2 a cs b)"
proof -
  define st2 where "st2 = upd st a (\<lambda>r. (orient rot r)\<lparr>pos := Some p\<rparr>)"
  have e: "upd (if rot \<noteq> rotated (heap st a) then upd st a rotate_room else st) a
             (\<lambda>r. r\<lparr>pos := Some p\<rparr>) = st2"
    by (auto simp: st2_def upd_def orient_def)
  have r2: "rotated (heap st2 a) = rot" by (simp add: st2_def)
  have s: "u_get_adjacency_score self st2 a p rot = (fst (u_get_adjacency_score self st2 a p rot), st2)"
    using adjacency_score_restores [of self st2 a p rot] by (metis prod.collapse)
  have "greedy_candidates self st a ((p, rg, rot, sc) # cs) b =
      rbind
           (if \<not> has_overlap st2 a then
              (case u_get_adjacency_score self st2 a p rot of
                 (adjacency_score, st3) \<Rightarrow>
                   rbind (u_get_region_fit_score (heap st3 a) rg (fst p) (snd p))
                     (\<lambda>region_score.
                        let combined_score = 4 / 5 * adjacency_score + 1 / 5 * region_score in
                        Inr (if combined_score > fst b
                             then (combined_score, Some p, rot, Some rg)
                             else b, st3)))
            else Inr (b, st2))
           (\<lambda>(b1, st4).
              let st5 = (if rot \<noteq> rotated (heap st4 a) then upd st4 a rotate_room else st4)
              in greedy_candidates self st5 a cs b1)"
    by (simp only: greedy_candidates.simps Let_def e)
  also have "\<dots> = (if \<not> has_overlap st2 a then
        rbind (u_get_region_fit_score (heap st2 a) rg (fst p) (snd p)) (\<lambda>region_score.
          greedy_candidates self st2 a cs
            (if 4 / 5 * fst (u_get_adjacency_score self st2 a p rot) + 1 / 5 * region_score > fst b
             then (4 / 5 * fst (u_get_adjacency_score self st2 a p rot) + 1 / 5 * region_score,
                   Some p, rot, Some rg)
             else b))
      else greedy_candidates self st2 a cs b)"
    apply (subst s)
    apply (cases "u_get_region_fit_score (heap st2 a) rg (fst p) (snd p)")
     apply (simp_all add: rbind_def Let_def r2)
    done
  finally show ?thesis unfolding Let_def st2_def .
qed

declare greedy_candidates.simps(2) [simp del]

lemma greedy_candidates_ok:
  "greedy_candidates self st a cs b = Inr (b', st') \<Longrightarrow> a \<notin> set (placed_rooms st) \<Longrightarrow>
   good_best st a b \<Longrightarrow> \<forall>c\<in>set cs. cand_ok (heap st a) c \<Longrightarrow>
   touches_only a st st' \<and> good_best st' a b'"
proof (induction cs arbitrary: st b)
  case Nil
  then show ?case by simp
next
  case (Cons c cs)
  obtain p rg rot sc where c: "c = (p, rg, rot, sc)" by (cases c) auto
  define st2 where "st2 = upd st a (\<lambda>r. (orient rot r)\<lparr>pos := Some p\<rparr>)"
  have t2: "touches_only a st st2"
    unfolding st2_def by (rule touches_only_upd) (simp add: same_shape_def orient_def rotate_room_def)
  have sh: "same_shape (heap st a) (heap st2 a)" using t2 by (simp add: touches_only_def)
  have p2: "placed_rooms st2 = placed_rooms st" by (simp add: st2_def)
  have a2: "a \<notin> set (placed_rooms st2)" using Cons.prems(2) p2 by simp
  have g2: "good_best st2 a b" using good_best_touches [OF t2 Cons.prems(2,3)] .
  have ok2: "\<forall>c\<in>set cs. cand_ok (heap st2 a) c"
    using Cons.prems(4) cand_ok_same_shape [OF sh] by simp
  have okc: "cand_ok (heap st2 a) (p, rg, rot, 0)"
    using Cons.prems(4) cand_ok_same_shape [OF sh] cand_ok_score [of _ p rg rot sc 0] by (simp add: c)
  have unfold: "greedy_candidates self st a (c # cs) b =
     (if \<not> has_overlap st2 a then
        rbind (u_get_region_fit_score (heap st2 a) rg (fst p) (snd p)) (\<lambda>region_score.
          greedy_candidates self st2 a cs
            (if 4 / 5 * fst (u_get_adjacency_score self st2 a p rot) + 1 / 5 * region_score > fst b
             then (4 / 5 * fst (u_get_adjacency_score self st2 a p rot) + 1 / 5 * region_score,
                   Some p, rot, Some rg)
             else b))
      else greedy_candidates self st2 a cs b)"
    unfolding c st2_def by (rule greedy_candidates_Cons [unfolded Let_def])
  show ?case
  proof (cases "has_overlap st2 a")
    case True
    with Cons.prems(1) have "greedy_candidates self st2 a cs b = Inr (b', st')"
      by (simp add: unfold)
    from Cons.IH [OF this a2 g2 ok2] touches_only_trans [OF t2] show ?thesis by blast
  next
    case False
    with Cons.prems(1) obtain f where
      rest: "greedy_candidates self st2 a cs
            (if 4 / 5 * fst (u_get_adjacency_score self st2 a p rot) + 1 / 5 * f > fst b
             then (4 / 5 * fst (u_get_adjacency_score self st2 a p rot) + 1 / 5 * f, Some p, rot, Some rg)
             else b) = Inr (b', st')"
      by (auto simp: unfold dest!: rbind_eq_Inr)
    have h2: "(orient rot (heap st2 a))\<lparr>pos := Some p\<rparr> = heap st2 a"
      by (simp add: st2_def orient_same)
    have free: "\<forall>q\<in>set (placed_rooms st2). \<not> overlaps (heap st2 a) (heap st2 q)"
      using False by (simp add: has_overlap_iff)
    have "good_best st2 a (x, Some p, rot, Some rg)" for x
      using okc free by (simp add: good_best_def h2)
    with g2 have "good_best st2 a (if 4 / 5 * fst (u_get_adjacency_score self st2 a p rot) + 1 / 5 * f > fst b
             then (4 / 5 * fst (u_get_adjacency_score self st2 a p rot) + 1 / 5 * f, Some p, rot, Some rg)
             else b)" by simp
    from Cons.IH [OF rest a2 this ok2] touches_only_trans [OF t2] show ?thesis by blast
  qed
qed

lemma greedy_rooms_invariant:
  "greedy_rooms self st as = Inr st' \<Longrightarrow> placement_invariant st \<Longrightarrow> distinct as \<Longrightarrow>
   set as \<inter> set (placed_rooms st) = {} \<Longrightarrow> \<forall>a\<in>set as. \<not> rotated (heap st a) \<Longrightarrow>
   placement_invariant st' \<and> set (placed_rooms st') \<subseteq> set (placed_rooms st) \<union> set as"
proof (induction as arbitrary: st)
  case Nil
  then show ?case by simp
next
  case (Cons a rest)
  have a: "a \<notin> set (placed_rooms st)" using Cons.prems(4) by simp
  from Cons.prems(1) obtain cands st1 b st2 where
    gen: "u_generate_candidate_positions self st a = Inr (cands, st1)"
    and gc: "greedy_candidates self st1 a cands (- 1, None, False, None) = Inr (b, st2)"
    and rest: "(case b of (best_score, best_pos, best_rot, best_region) \<Rightarrow>
            case best_pos of
              None \<Rightarrow> greedy_rooms self st2 rest
            | Some p \<Rightarrow>
                let st3 = (if best_rot \<noteq> rotated (heap st2 a) then upd st2 a rotate_room else st2);
                    st4 = upd st3 a (\<lambda>r. r\<lparr>pos := Some p, region := best_region\<rparr>)
                in greedy_rooms self (st4\<lparr>placed_rooms := placed_rooms st4 @ [a]\<rparr>) rest) = Inr st'"
    by (auto dest!: rbind_eq_Inr)
  have "placed_rooms st = [] \<longrightarrow> \<not> rotated (heap st a)" using Cons.prems(5) by simp
  from generate_candidates_ok [OF gen this]
  have t1: "touches_only a st st1" and ok: "\<forall>c\<in>set cands. cand_ok (heap st a) c" by simp_all
  have sh1: "same_shape (heap st a) (heap st1 a)" using t1 by (simp add: touches_only_def)
  have p1: "placed_rooms st1 = placed_rooms st" using t1 by (simp add: touches_only_def)
  have ok1: "\<forall>c\<in>set cands. cand_ok (heap st1 a) c" using ok cand_ok_same_shape [OF sh1] by simp
  have g0: "good_best st1 a (- 1, None, False, None)" by (simp add: good_best_def)
  from greedy_candidates_ok [OF gc _ g0 ok1] a p1
  have t2: "touches_only a st1 st2" and gb: "good_best st2 a b" by simp_all
  have t02: "touches_only a st st2" using touches_only_trans [OF t1 t2] .
  have p2: "placed_rooms st2 = placed_rooms st" using t02 by (simp add: touches_only_def)
  have o2: "\<forall>q. q \<noteq> a \<longrightarrow> heap st2 q = heap st q" using t02 by (simp add: touches_only_def)
  have f2: "frame st st2" using touches_only_frame [OF t02 a] .
  have inv2: "placement_invariant st2" using frame_invariant [OF f2 Cons.prems(2)] .
  have dr: "distinct rest" and ar: "a \<notin> set rest" using Cons.prems(3) by simp_all
  obtain bs bp br brg where b: "b = (bs, bp, br, brg)" by (cases b) auto
  show ?case
  proof (cases bp)
    case None
    with rest b have r: "greedy_rooms self st2 rest = Inr st'" by simp
    have d2: "set rest \<inter> set (placed_rooms st2) = {}" using Cons.prems(4) p2 by auto
    have n2: "\<forall>q\<in>set rest. \<not> rotated (heap st2 q)" using Cons.prems(5) o2 ar by auto
    from Cons.IH [OF r inv2 dr d2 n2] p2 show ?thesis by auto
  next
    case (Some p)
    define st4 where "st4 = upd st2 a (\<lambda>r. (orient br r)\<lparr>pos := Some p, region := brg\<rparr>)"
    from rest b Some have r: "greedy_rooms self (st4\<lparr>placed_rooms := placed_rooms st4 @ [a]\<rparr>) rest = Inr st'"
      by (simp add: Let_def rotate_step_orient' upd_upd st4_def)
    from gb b Some obtain rg where rg: "brg = Some rg" and ck: "cand_ok (heap st2 a) (p, rg, br, 0)"
      and free: "\<forall>q\<in>set (placed_rooms st2). \<not> overlaps ((orient br (heap st2 a))\<lparr>pos := Some p\<rparr>) (heap st2 q)"
      by (auto simp: good_best_def)
    have t4: "touches_only a st2 st4"
      unfolding st4_def by (rule touches_only_upd) (simp add: same_shape_def orient_def rotate_room_def)
    have p4: "placed_rooms st4 = placed_rooms st" using p2 by (simp add: st4_def)
    have o4: "\<forall>q. q \<noteq> a \<longrightarrow> heap st4 q = heap st q" using o2 by (simp add: st4_def upd_def)
    have f4: "frame st st4" using touches_only_frame [OF touches_only_trans [OF t02 t4] a] .
    have inv4: "placement_invariant st4" using frame_invariant [OF f4 Cons.prems(2)] .
    have pk: "placed_ok (heap st4 a)"
      using placed_ok_candidate [OF ck] by (simp add: st4_def rg)
    have "overlaps (heap st4 a) q = overlaps ((orient br (heap st2 a))\<lparr>pos := Some p\<rparr>) q" for q
      by (rule overlaps_dims) (simp_all add: st4_def)
    moreover have "\<forall>q\<in>set (placed_rooms st2). heap st4 q = heap st2 q"
      using a p2 by (auto simp: st4_def upd_def)
    ultimately have no: "\<not> has_overlap st4 a"
      using free by (simp add: has_overlap_iff p4 p2)
    have inv5: "placement_invariant (st4\<lparr>placed_rooms := placed_rooms st4 @ [a]\<rparr>)"
      using invariant_place [OF inv4 _ pk no] a p4 by simp
    have d5: "set rest \<inter> set (placed_rooms (st4\<lparr>placed_rooms := placed_rooms st4 @ [a]\<rparr>)) = {}"
      using Cons.prems(4) p4 ar by auto
    have n5: "\<forall>q\<in>set rest. \<not> rotated (heap (st4\<lparr>placed_rooms := placed_rooms st4 @ [a]\<rparr>) q)"
      using Cons.prems(5) o4 ar by auto
    from Cons.IH [OF r inv5 dr d5 n5] p4 show ?thesis by auto
  qed
qed

lemma fold_clear_rotated:
  "b \<in> set as \<or> \<not> rotated (heap st b) \<Longrightarrow>
   \<not> rotated (heap (fold (\<lambda>a s. upd s a (\<lambda>r. r\<lparr>pos := None, region := None, rotated := False\<rparr>)) as st) b)"
proof (induction as arbitrary: st)
  case Nil
  then show ?case by simp
next
  case (Cons a as)
  have "b \<in> set as \<or> \<not> rotated (heap (upd st a (\<lambda>r. r\<lparr>pos := None, region := None, rotated := False\<rparr>)) b)"
    using Cons.prems by (auto simp: upd_def)
  from Cons.IH [OF this] show ?case by simp
qed

lemma clear_placements_placed [simp]: "placed_rooms (clear_placements self st) = []"
  by (simp add: clear_placements_def)

lemma clear_placements_unrotated:
  "a \<in> set (rooms self) \<Longrightarrow> \<not> rotated (heap (clear_placements self st) a)"
  using fold_clear_rotated [of a "rooms self" st] by (simp add: clear_placements_def)

lemma sort_rooms_perm:
  "sort_rooms self st = Inr rs \<Longrightarrow> set rs = set (rooms self) \<and> distinct rs = distinct (rooms self)"
  by (auto simp: sort_rooms_def split: if_splits)

lemma invariant_empty: "placed_rooms st = [] \<Longrightarrow> placement_invariant st"
  by (simp add: placement_invariant_def no_overlap_def)

lemma placed_ok_iff:
  "placed_ok r = (\<exists>x y rg. pos r = Some (x, y) \<and> region r = Some rg \<and> contains rg r x y)"
  by (cases "pos r"; cases "region r") (auto simp: placed_ok_def)

text \<open>
  C1. After any run of \<^verbatim>\<open>place_rooms\<close> that returns, whether the backtracking search
  succeeded or the greedy fallback ran, and whatever the clock did: no two distinct rooms
  of the placed list overlap, and every placed room has a rectangle and an assigned
  region that contains the rectangle. The placed list has no duplicates, holds only
  rooms of the room list, and its length is the returned count. The room list holds each
  room object once.
\<close>

theorem place_rooms_invariant:
  assumes d: "distinct (rooms self)"
    and run: "place_rooms time_time self st = Inr (n, self', st')"
  shows "(\<forall>a\<in>set (placed_rooms st'). \<forall>b\<in>set (placed_rooms st').
            a \<noteq> b \<longrightarrow> \<not> overlaps (heap st' a) (heap st' b))
       \<and> (\<forall>a\<in>set (placed_rooms st').
            \<exists>x y rg. pos (heap st' a) = Some (x, y) \<and> region (heap st' a) = Some rg
                     \<and> contains rg (heap st' a) x y)
       \<and> distinct (placed_rooms st') \<and> set (placed_rooms st') \<subseteq> set (rooms self)
       \<and> n = length (placed_rooms st')"
proof -
  define st1 where "st1 = clear_placements self st"
  let ?st2 = "st1\<lparr>clock := Suc (clock st1)\<rparr>"
  from run obtain rs ok st3 where sr: "sort_rooms self st1 = Inr rs"
    and bt: "u_place_room_backtracking time_time (self\<lparr>rooms := rs\<rparr>) ?st2 0
               (Some (time_time (clock st1))) = Inr (ok, st3)"
    and rest2: "(if ok then Inr (length (placed_rooms st3), self\<lparr>rooms := rs\<rparr>, st3)
                else rbind (u_place_rooms_greedy (self\<lparr>rooms := rs\<rparr>)
                              (clear_placements (self\<lparr>rooms := rs\<rparr>) st3) rs)
                       (\<lambda>(n, st4). Inr (n, self\<lparr>rooms := rs\<rparr>, st4))) = Inr (n, self', st')"
    unfolding place_rooms_def Let_def st1_def [symmetric] by (auto dest!: rbind_eq_Inr)
  let ?self1 = "self\<lparr>rooms := rs\<rparr>"
  from sort_rooms_perm [OF sr] d have srs: "set rs = set (rooms self)" and drs: "distinct rs" by simp_all
  have p2: "placed_rooms ?st2 = []" by (simp add: st1_def)
  have r2: "0 < length rs \<longrightarrow> \<not> rotated (heap ?st2 (rs ! 0))"
  proof
    assume "0 < length rs"
    then have "rs ! 0 \<in> set (rooms self)" using srs nth_mem [of 0 rs] by simp
    from clear_placements_unrotated [OF this, of st] show "\<not> rotated (heap ?st2 (rs ! 0))"
      by (simp add: st1_def)
  qed
  have post: "search_post ?self1 ?st2 (u_place_room_backtracking time_time ?self1 ?st2 0 (Some (time_time (clock st1))))"
    by (rule backtracking_post) (use drs p2 r2 in \<open>simp_all add: invariant_empty\<close>)
  have "placement_invariant st' \<and> set (placed_rooms st') \<subseteq> set rs \<and> n = length (placed_rooms st')"
  proof (cases ok)
    case True
    with post bt rest2 show ?thesis by auto
  next
    case False
    define st4 where "st4 = clear_placements ?self1 st3"
    from False rest2 have "greedy_rooms ?self1 st4 rs = Inr st' \<and> n = length (placed_rooms st')"
      by (auto simp: u_place_rooms_greedy_def st4_def dest!: rbind_eq_Inr)
    moreover have "\<forall>a\<in>set rs. \<not> rotated (heap st4 a)"
      using clear_placements_unrotated [of _ ?self1 st3] by (simp add: st4_def)
    moreover have "placed_rooms st4 = []" by (simp add: st4_def)
    ultimately show ?thesis
      using greedy_rooms_invariant [of ?self1 st4 rs st'] drs by (simp add: invariant_empty)
  qed
  then have inv: "placement_invariant st'" and sub: "set (placed_rooms st') \<subseteq> set (rooms self)"
    and n: "n = length (placed_rooms st')" using srs by simp_all
  have "\<forall>a\<in>set (placed_rooms st').
            \<exists>x y rg. pos (heap st' a) = Some (x, y) \<and> region (heap st' a) = Some rg
                     \<and> contains rg (heap st' a) x y"
    using inv by (simp add: placement_invariant_def placed_ok_iff)
  with inv sub n show ?thesis
    by (simp add: placement_invariant_def no_overlap_def)
qed


lemma returned_Some: "returned r = Some v \<Longrightarrow> r = Inr v"
  by (cases r) (simp_all add: returned_def)

lemma duo_run:
  "outcome_of (place_rooms (\<lambda>n. 100 + of_nat n / 1000) duo_self duo_store) 1
     = Some (2, [0, 1],
         \<lparr>room_id = 2, width = 1, height = 1, pos = Some (1, 0),
            region = Some (PlotRegion 0 0 2 1), rotated = False\<rparr>)"
  by (simp add: duo_self_def duo_store_def eval_defs try_candidates.simps greedy_candidates.simps
      cong: rbind_weak_cong)

theorem place_rooms_invariant_witness:
  "distinct (rooms duo_self)
   \<and> (\<exists>n self' st'. place_rooms (\<lambda>n. 100 + of_nat n / 1000) duo_self duo_store = Inr (n, self', st')
         \<and> n = 2 \<and> placed_rooms st' = [0, 1]
         \<and> \<not> overlaps (heap st' 0) (heap st' 1)
         \<and> (\<exists>x y rg. pos (heap st' 1) = Some (x, y) \<and> region (heap st' 1) = Some rg
                      \<and> contains rg (heap st' 1) x y))"
proof -
  have d: "distinct (rooms duo_self)"
    by (simp add: duo_self_def RegionBasedPlacement_def)
  from duo_run obtain v where v: "place_rooms (\<lambda>n. 100 + of_nat n / 1000) duo_self duo_store = Inr v"
    and o: "(fst v, placed_rooms (snd (snd v))) = (2, [0, 1])"
    by (auto simp: outcome_of_def dest: returned_Some)
  obtain n self' st' where w: "v = (n, self', st')" by (cases v) auto
  from place_rooms_invariant [OF d v [unfolded w]] o w v d show ?thesis
    by auto
qed

subsection \<open>Grid sampling when nothing is placed\<close>

lemma sample_ys_total:
  "0 < step \<Longrightarrow>
   \<exists>ps. sample_ys x y ylim step acc = Some (acc @ ps)
      \<and> (\<forall>k\<ge>0. y + k * step \<le> ylim \<longrightarrow> (x, y + k * step) \<in> set ps)"
proof (induction "nat (ylim - y + 1)" arbitrary: y acc rule: less_induct)
  case less
  show ?case
  proof (cases "y \<le> ylim")
    case False
    have "\<And>k. 0 \<le> k \<Longrightarrow> y \<le> y + k * step"
      using less.prems by simp
    with False have "\<forall>k\<ge>0. \<not> y + k * step \<le> ylim" by (meson order.trans)
    with False show ?thesis by (subst sample_ys.simps) simp
  next
    case True
    with less.prems have "nat (ylim - (y + step) + 1) < nat (ylim - y + 1)" by simp
    from less.hyps [OF this less.prems, of "acc @ [(x, y)]"]
    obtain ps where ps: "sample_ys x (y + step) ylim step (acc @ [(x, y)]) = Some ((acc @ [(x, y)]) @ ps)"
      and mem: "\<forall>k\<ge>0. y + step + k * step \<le> ylim \<longrightarrow> (x, y + step + k * step) \<in> set ps"
      by blast
    have "(x, y + k * step) \<in> set ((x, y) # ps)" if k: "0 \<le> k" "y + k * step \<le> ylim" for k
    proof (cases "k = 0")
      case True
      then show ?thesis by simp
    next
      case False
      with k have k1: "0 \<le> k - 1" by simp
      have e: "y + step + (k - 1) * step = y + k * step" by (simp add: algebra_simps)
      from mem k1 k(2) e show ?thesis by (metis list.set_intros(2))
    qed
    with True ps show ?thesis
      by (subst sample_ys.simps) auto
  qed
qed

lemma sample_xs_total:
  "0 < step \<Longrightarrow>
   \<exists>ps. sample_xs x xlim ystart ylim step acc = Some (acc @ ps)
      \<and> (\<forall>i\<ge>0. \<forall>j\<ge>0. x + i * step \<le> xlim \<longrightarrow> ystart + j * step \<le> ylim \<longrightarrow>
             (x + i * step, ystart + j * step) \<in> set ps)"
proof (induction "nat (xlim - x + 1)" arbitrary: x acc rule: less_induct)
  case less
  show ?case
  proof (cases "x \<le> xlim")
    case False
    have "\<And>i. 0 \<le> i \<Longrightarrow> x \<le> x + i * step"
      using less.prems by simp
    with False have "\<forall>i\<ge>0. \<not> x + i * step \<le> xlim" by (meson order.trans)
    with False show ?thesis by (subst sample_xs.simps) simp
  next
    case True
    from sample_ys_total [OF less.prems, of x ystart ylim acc]
    obtain col where col: "sample_ys x ystart ylim step acc = Some (acc @ col)"
      and cmem: "\<forall>k\<ge>0. ystart + k * step \<le> ylim \<longrightarrow> (x, ystart + k * step) \<in> set col"
      by blast
    from True less.prems have "nat (xlim - (x + step) + 1) < nat (xlim - x + 1)" by simp
    from less.hyps [OF this less.prems, of "acc @ col"]
    obtain ps where ps: "sample_xs (x + step) xlim ystart ylim step (acc @ col) = Some ((acc @ col) @ ps)"
      and mem: "\<forall>i\<ge>0. \<forall>j\<ge>0. x + step + i * step \<le> xlim \<longrightarrow> ystart + j * step \<le> ylim \<longrightarrow>
             (x + step + i * step, ystart + j * step) \<in> set ps"
      by blast
    have "(x + i * step, ystart + j * step) \<in> set (col @ ps)"
      if ij: "0 \<le> i" "0 \<le> j" "x + i * step \<le> xlim" "ystart + j * step \<le> ylim" for i j
    proof (cases "i = 0")
      case True
      with cmem ij show ?thesis by simp
    next
      case False
      with ij have i1: "0 \<le> i - 1" by simp
      have e: "x + step + (i - 1) * step = x + i * step" by (simp add: algebra_simps)
      from mem i1 ij(2,3,4) e show ?thesis by (metis UnCI set_append)
    qed
    with True col ps show ?thesis
      by (subst sample_xs.simps) auto
  qed
qed

lemma get_sample_positions_total:
  assumes "1 \<le> step"
  shows "\<exists>ps. get_sample_positions rg r step = Some ps
      \<and> (\<forall>i\<ge>0. \<forall>j\<ge>0. contains rg r (x1 rg + i * step) (y1 rg + j * step) \<longrightarrow>
             (x1 rg + i * step, y1 rg + j * step) \<in> set ps)"
proof -
  from assms have "0 < step" by simp
  from sample_xs_total [OF this, of "x1 rg" "x2 rg - width r" "y1 rg" "y2 rg - height r" "[]"]
  show ?thesis
    by (auto simp: get_sample_positions_def contains_def)
qed

lemma fit_score_total:
  assumes "0 < width r" "0 < height r"
  shows "\<exists>f. u_get_region_fit_score r rg x y = Inr f \<and> (contains rg r x y \<longrightarrow> 0 < f)"
proof (cases "contains rg r x y")
  case False
  then show ?thesis by (simp add: u_get_region_fit_score_def)
next
  case True
  have a: "0 < area r" using assms by (simp add: area_def)
  have s: "0 \<le> x - x1 rg + (x2 rg - (x + width r)) + (y - y1 rg) + (y2 rg - (y + height r))"
    using True by (simp add: contains_def)
  from a s have d: "0 < area r + (x - x1 rg + (x2 rg - (x + width r)) + (y - y1 rg) + (y2 rg - (y + height r)))"
    by linarith
  have "0 < (of_int (area r) :: rat) / of_int (area r + (x - x1 rg + (x2 rg - (x + width r)) + (y - y1 rg) + (y2 rg - (y + height r))))"
    using a d by (intro divide_pos_pos) simp_all
  with True d show ?thesis
    by (simp add: u_get_region_fit_score_def Let_def)
qed

lemma score_positions_total:
  assumes "0 < width r" "0 < height r"
  shows "\<exists>cands'. score_positions r rg rot ps cands = Inr cands' \<and> set cands \<subseteq> set cands'
      \<and> (\<forall>p\<in>set ps. contains rg r (fst p) (snd p) \<longrightarrow> (\<exists>sc. (p, rg, rot, sc) \<in> set cands'))"
proof (induction ps arbitrary: cands)
  case Nil
  then show ?case by simp
next
  case (Cons p ps)
  from fit_score_total [OF assms, of rg "fst p" "snd p"]
  obtain f where f: "u_get_region_fit_score r rg (fst p) (snd p) = Inr f"
    and fp: "contains rg r (fst p) (snd p) \<longrightarrow> 0 < f" by blast
  let ?c1 = "if f > 0 then cands @ [(p, rg, rot, f)] else cands"
  from Cons.IH [of ?c1] obtain cands' where r: "score_positions r rg rot ps ?c1 = Inr cands'"
    and sub: "set ?c1 \<subseteq> set cands'"
    and mem: "\<forall>q\<in>set ps. contains rg r (fst q) (snd q) \<longrightarrow> (\<exists>sc. (q, rg, rot, sc) \<in> set cands')"
    by blast
  have "contains rg r (fst p) (snd p) \<longrightarrow> (p, rg, rot, f) \<in> set cands'"
    using fp sub by auto
  moreover have "set cands \<subseteq> set cands'" using sub by (auto split: if_splits)
  ultimately show ?case using f r mem
    by (auto simp: rbind_Inr)
qed

lemma sample_and_score_total:
  assumes "1 \<le> step_size self" "0 < width (heap st a)" "0 < height (heap st a)"
  shows "\<exists>cands'. sample_and_score self st a rg rot cands = Inr cands' \<and> set cands \<subseteq> set cands'
      \<and> (\<forall>i\<ge>0. \<forall>j\<ge>0. contains rg (heap st a) (x1 rg + i * step_size self) (y1 rg + j * step_size self) \<longrightarrow>
             (\<exists>sc. ((x1 rg + i * step_size self, y1 rg + j * step_size self), rg, rot, sc) \<in> set cands'))"
proof -
  from get_sample_positions_total [OF assms(1), of rg "heap st a"]
  obtain ps where ps: "get_sample_positions rg (heap st a) (step_size self) = Some ps"
    and mem: "\<forall>i\<ge>0. \<forall>j\<ge>0. contains rg (heap st a) (x1 rg + i * step_size self) (y1 rg + j * step_size self) \<longrightarrow>
             (x1 rg + i * step_size self, y1 rg + j * step_size self) \<in> set ps"
    by blast
  from score_positions_total [OF assms(2,3), of rg rot ps cands]
  obtain cands' where r: "score_positions (heap st a) rg rot ps cands = Inr cands'"
    and sub: "set cands \<subseteq> set cands'"
    and m2: "\<forall>p\<in>set ps. contains rg (heap st a) (fst p) (snd p) \<longrightarrow> (\<exists>sc. (p, rg, rot, sc) \<in> set cands')"
    by blast
  have "\<forall>i\<ge>0. \<forall>j\<ge>0. contains rg (heap st a) (x1 rg + i * step_size self) (y1 rg + j * step_size self) \<longrightarrow>
             (\<exists>sc. ((x1 rg + i * step_size self, y1 rg + j * step_size self), rg, rot, sc) \<in> set cands')"
    using mem m2 by fastforce
  with ps r sub show ?thesis by (simp add: sample_and_score_def)
qed


lemma grid_regions_total:
  assumes "1 \<le> step_size self" "0 < width (heap st a)" "0 < height (heap st a)"
  shows "\<exists>cands'. grid_regions self st a rgs cands = Inr (cands', st) \<and> set cands \<subseteq> set cands'
      \<and> (\<forall>rg\<in>set rgs. \<forall>i\<ge>0. \<forall>j\<ge>0.
            (contains rg (heap st a) (x1 rg + i * step_size self) (y1 rg + j * step_size self) \<longrightarrow>
               (\<exists>sc. ((x1 rg + i * step_size self, y1 rg + j * step_size self), rg, False, sc) \<in> set cands'))
          \<and> (optimize_rotations self
               \<and> contains rg (rotate_room (heap st a)) (x1 rg + i * step_size self) (y1 rg + j * step_size self) \<longrightarrow>
               (\<exists>sc. ((x1 rg + i * step_size self, y1 rg + j * step_size self), rg, True, sc) \<in> set cands')))"
proof (induction rgs arbitrary: cands)
  case Nil
  then show ?case by simp
next
  case (Cons rg rgs)
  let ?s = "step_size self"
  from sample_and_score_total [OF assms, of rg False cands]
  obtain c1 where c1: "sample_and_score self st a rg False cands = Inr c1"
    and sub1: "set cands \<subseteq> set c1"
    and m1: "\<forall>i\<ge>0. \<forall>j\<ge>0. contains rg (heap st a) (x1 rg + i * ?s) (y1 rg + j * ?s) \<longrightarrow>
             (\<exists>sc. ((x1 rg + i * ?s, y1 rg + j * ?s), rg, False, sc) \<in> set c1)"
    by blast
  let ?st1 = "upd st a rotate_room"
  have d1: "0 < width (heap ?st1 a)" "0 < height (heap ?st1 a)"
    using assms(2,3) by (simp_all add: rotate_room_def)
  have "\<exists>c2. (if optimize_rotations self then
         (let st1 = upd st a rotate_room in
          rbind (sample_and_score self st1 a rg True c1) (\<lambda>candidates2.
            grid_regions self (upd st1 a rotate_room) a rgs candidates2))
       else grid_regions self st a rgs c1) = grid_regions self st a rgs c2 \<and> set c1 \<subseteq> set c2
       \<and> (\<forall>i\<ge>0. \<forall>j\<ge>0. optimize_rotations self
               \<and> contains rg (rotate_room (heap st a)) (x1 rg + i * ?s) (y1 rg + j * ?s) \<longrightarrow>
               (\<exists>sc. ((x1 rg + i * ?s, y1 rg + j * ?s), rg, True, sc) \<in> set c2))"
  proof (cases "optimize_rotations self")
    case False
    then show ?thesis by auto
  next
    case True
    from sample_and_score_total [OF assms(1) d1, of rg True c1]
    obtain c2 where c2: "sample_and_score self ?st1 a rg True c1 = Inr c2"
      and sub2: "set c1 \<subseteq> set c2"
      and m2: "\<forall>i\<ge>0. \<forall>j\<ge>0. contains rg (heap ?st1 a) (x1 rg + i * ?s) (y1 rg + j * ?s) \<longrightarrow>
             (\<exists>sc. ((x1 rg + i * ?s, y1 rg + j * ?s), rg, True, sc) \<in> set c2)"
      by blast
    from True c2 sub2 m2 show ?thesis
      by (intro exI [of _ c2]) (simp add: Let_def rbind_Inr upd_rotate_twice)
  qed
  then obtain c2 where e: "grid_regions self st a (rg # rgs) cands = grid_regions self st a rgs c2"
    and sub2: "set c1 \<subseteq> set c2"
    and m2: "\<forall>i\<ge>0. \<forall>j\<ge>0. optimize_rotations self
               \<and> contains rg (rotate_room (heap st a)) (x1 rg + i * ?s) (y1 rg + j * ?s) \<longrightarrow>
               (\<exists>sc. ((x1 rg + i * ?s, y1 rg + j * ?s), rg, True, sc) \<in> set c2)"
    using c1 by (auto simp: rbind_Inr)
  from Cons.IH [of c2] obtain cands' where r: "grid_regions self st a rgs c2 = Inr (cands', st)"
    and sub: "set c2 \<subseteq> set cands'"
    and m: "\<forall>rg\<in>set rgs. \<forall>i\<ge>0. \<forall>j\<ge>0.
            (contains rg (heap st a) (x1 rg + i * ?s) (y1 rg + j * ?s) \<longrightarrow>
               (\<exists>sc. ((x1 rg + i * ?s, y1 rg + j * ?s), rg, False, sc) \<in> set cands'))
          \<and> (optimize_rotations self
               \<and> contains rg (rotate_room (heap st a)) (x1 rg + i * ?s) (y1 rg + j * ?s) \<longrightarrow>
               (\<exists>sc. ((x1 rg + i * ?s, y1 rg + j * ?s), rg, True, sc) \<in> set cands'))"
    by blast
  have h1: "\<forall>i\<ge>0. \<forall>j\<ge>0. contains rg (heap st a) (x1 rg + i * ?s) (y1 rg + j * ?s) \<longrightarrow>
             (\<exists>sc. ((x1 rg + i * ?s, y1 rg + j * ?s), rg, False, sc) \<in> set cands')"
    using m1 sub2 sub by blast
  have h2: "\<forall>i\<ge>0. \<forall>j\<ge>0. optimize_rotations self
               \<and> contains rg (rotate_room (heap st a)) (x1 rg + i * ?s) (y1 rg + j * ?s) \<longrightarrow>
               (\<exists>sc. ((x1 rg + i * ?s, y1 rg + j * ?s), rg, True, sc) \<in> set cands')"
    using m2 sub by blast
  have h0: "set cands \<subseteq> set cands'" using sub1 sub2 sub by blast
  show ?case
    unfolding e using r h0 h1 h2 m by (intro exI [of _ cands']) simp
qed

text \<open>
  When a room is already placed, the generator runs the adjacency-driven branch and
  nothing else: its targets are the placed required neighbours or, when there is none,
  all the placed rooms.
\<close>

lemma adjacency_branch_when_placed:
  assumes "placed_rooms st \<noteq> []"
  shows "u_generate_candidate_positions self st a =
     rbind (adj_targets self st a
              (if filter (\<lambda>p. room_id (heap st p)
                                \<in> set (get_or_empty (adjacency_graph self) (room_id (heap st a))))
                    (placed_rooms st) = []
               then placed_rooms st
               else filter (\<lambda>p. room_id (heap st p)
                                \<in> set (get_or_empty (adjacency_graph self) (room_id (heap st a))))
                      (placed_rooms st)) [])
       (\<lambda>(candidates, st1). Inr (sort_key (\<lambda>c. - cand_score c) candidates, st1))"
  using assms by (simp add: u_generate_candidate_positions_def Let_def)

text \<open>
  C4, as the code has it. When no room is placed yet, the generator samples the grid
  exhaustively: for a room of positive size and a step size of at least 1 it returns,
  and every region and every origin on the step-size grid of that region where the room
  fits yields a candidate, in the original orientation and, if rotation is allowed, in
  the rotated one; so the returned list is non-empty whenever some grid position fits
  the room inside some region.
\<close>

theorem grid_sampling_when_nothing_placed:
  assumes "placed_rooms st = []" "1 \<le> step_size self"
    "0 < width (heap st a)" "0 < height (heap st a)"
  shows "\<exists>cands. candidates_of (u_generate_candidate_positions self st a) = Some cands
      \<and> (\<forall>rg\<in>set (regions self). \<forall>i\<ge>0. \<forall>j\<ge>0.
            (contains rg (heap st a) (x1 rg + i * step_size self) (y1 rg + j * step_size self) \<longrightarrow>
               (\<exists>sc. ((x1 rg + i * step_size self, y1 rg + j * step_size self), rg, False, sc) \<in> set cands))
          \<and> (optimize_rotations self
               \<and> contains rg (rotate_room (heap st a)) (x1 rg + i * step_size self) (y1 rg + j * step_size self) \<longrightarrow>
               (\<exists>sc. ((x1 rg + i * step_size self, y1 rg + j * step_size self), rg, True, sc) \<in> set cands)))
      \<and> ((\<exists>rg\<in>set (regions self). \<exists>i\<ge>0. \<exists>j\<ge>0.
             contains rg (heap st a) (x1 rg + i * step_size self) (y1 rg + j * step_size self)
             \<or> (optimize_rotations self
                 \<and> contains rg (rotate_room (heap st a)) (x1 rg + i * step_size self) (y1 rg + j * step_size self)))
          \<longrightarrow> cands \<noteq> [])"
proof -
  from grid_regions_total [OF assms(2,3,4), of "regions self" "[]"]
  obtain c0 where r: "grid_regions self st a (regions self) [] = Inr (c0, st)"
    and m: "\<forall>rg\<in>set (regions self). \<forall>i\<ge>0. \<forall>j\<ge>0.
            (contains rg (heap st a) (x1 rg + i * step_size self) (y1 rg + j * step_size self) \<longrightarrow>
               (\<exists>sc. ((x1 rg + i * step_size self, y1 rg + j * step_size self), rg, False, sc) \<in> set c0))
          \<and> (optimize_rotations self
               \<and> contains rg (rotate_room (heap st a)) (x1 rg + i * step_size self) (y1 rg + j * step_size self) \<longrightarrow>
               (\<exists>sc. ((x1 rg + i * step_size self, y1 rg + j * step_size self), rg, True, sc) \<in> set c0))"
    by blast
  let ?cands = "sort_key (\<lambda>c. - cand_score c) c0"
  have g: "candidates_of (u_generate_candidate_positions self st a) = Some ?cands"
    using assms(1) r
    by (simp add: u_generate_candidate_positions_def candidates_of_def returned_def rbind_Inr)
  have s: "set ?cands = set c0" by simp
  have ne: "(\<exists>rg\<in>set (regions self). \<exists>i\<ge>0. \<exists>j\<ge>0.
             contains rg (heap st a) (x1 rg + i * step_size self) (y1 rg + j * step_size self)
             \<or> (optimize_rotations self
                 \<and> contains rg (rotate_room (heap st a)) (x1 rg + i * step_size self) (y1 rg + j * step_size self)))
          \<longrightarrow> ?cands \<noteq> []"
  proof
    assume "\<exists>rg\<in>set (regions self). \<exists>i\<ge>0. \<exists>j\<ge>0.
             contains rg (heap st a) (x1 rg + i * step_size self) (y1 rg + j * step_size self)
             \<or> (optimize_rotations self
                 \<and> contains rg (rotate_room (heap st a)) (x1 rg + i * step_size self) (y1 rg + j * step_size self))"
    with m have "\<exists>c. c \<in> set c0" by blast
    then have "set c0 \<noteq> {}" by auto
    with s show "?cands \<noteq> []" by (metis set_empty)
  qed
  show ?thesis
    by (intro exI [of _ ?cands] conjI g ne) (use m in \<open>simp only: s\<close>)
qed


theorem grid_sampling_when_nothing_placed_witness:
  "placed_rooms tight_store = [] \<and> 1 \<le> step_size tight_self
   \<and> 0 < width (heap tight_store 0) \<and> 0 < height (heap tight_store 0)
   \<and> PlotRegion 0 0 2 2 \<in> set (regions tight_self)
   \<and> contains (PlotRegion 0 0 2 2) (heap tight_store 0) 0 1
   \<and> (\<exists>cands. candidates_of (u_generate_candidate_positions tight_self tight_store 0) = Some cands
         \<and> cands \<noteq> [] \<and> (\<exists>sc. ((0, 1), PlotRegion 0 0 2 2, False, sc) \<in> set cands))"
proof -
  let ?rg = "PlotRegion 0 0 2 2"
  have h1: "placed_rooms tight_store = []"
    by (simp add: tight_store_def fresh_store_def)
  have h2: "1 \<le> step_size tight_self"
    by (simp add: tight_self_def RegionBasedPlacement_def)
  have h3: "0 < width (heap tight_store 0)" and h4: "0 < height (heap tight_store 0)"
    by (simp_all add: tight_store_def fresh_store_def Room_def)
  have rg: "?rg \<in> set (regions tight_self)"
    by (simp add: tight_self_def RegionBasedPlacement_def)
  have c: "contains ?rg (heap tight_store 0) (x1 ?rg + 0 * step_size tight_self)
             (y1 ?rg + 1 * step_size tight_self)"
    by (simp add: tight_self_def tight_store_def fresh_store_def RegionBasedPlacement_def Room_def
        PlotRegion_def contains_def)
  from grid_sampling_when_nothing_placed [OF h1 h2 h3 h4]
  obtain cands where g: "candidates_of (u_generate_candidate_positions tight_self tight_store 0) = Some cands"
    and m: "\<forall>rg\<in>set (regions tight_self). \<forall>i\<ge>0. \<forall>j\<ge>0.
            (contains rg (heap tight_store 0) (x1 rg + i * step_size tight_self) (y1 rg + j * step_size tight_self) \<longrightarrow>
               (\<exists>sc. ((x1 rg + i * step_size tight_self, y1 rg + j * step_size tight_self), rg, False, sc) \<in> set cands))"
    by blast
  have z: "(0::int) \<le> 0" "(0::int) \<le> 1" by simp_all
  from m rg z c
  have "\<exists>sc. ((x1 ?rg + 0 * step_size tight_self, y1 ?rg + 1 * step_size tight_self), ?rg, False, sc) \<in> set cands"
    by blast
  then have mem: "\<exists>sc. ((0, 1), ?rg, False, sc) \<in> set cands"
    by (simp add: tight_self_def RegionBasedPlacement_def PlotRegion_def)
  then have ne: "cands \<noteq> []" by auto
  have c': "contains ?rg (heap tight_store 0) 0 1"
    using c by (simp add: tight_self_def RegionBasedPlacement_def PlotRegion_def)
  from h1 h2 h3 h4 rg c' g mem ne show ?thesis by blast
qed

subsection \<open>The run returns\<close>

lemma room_wf_same_shape: "same_shape r r' \<Longrightarrow> room_wf r' = room_wf r"
  by (auto simp: same_shape_def room_wf_def orient_def rotate_room_def split: if_splits)

lemma room_wf_orient [simp]: "room_wf (orient b r) = room_wf r"
  by (rule room_wf_same_shape) simp

lemma keeps_shapes_refl [simp]: "keeps_shapes st st"
  by (simp add: keeps_shapes_def)

lemma keeps_shapes_trans: "keeps_shapes st st' \<Longrightarrow> keeps_shapes st' st'' \<Longrightarrow> keeps_shapes st st''"
  by (auto simp: keeps_shapes_def intro: same_shape_trans)

lemma touches_only_keeps_shapes: "touches_only a st st' \<Longrightarrow> keeps_shapes st st'"
  by (simp add: touches_only_def keeps_shapes_def) (metis same_shape_refl)

lemma keeps_shapes_heap: "heap st' = heap st \<Longrightarrow> keeps_shapes st st'"
  by (simp add: keeps_shapes_def)

lemma keeps_shapes_wf:
  "keeps_shapes st st' \<Longrightarrow> \<forall>b\<in>S. room_wf (heap st b) \<Longrightarrow> \<forall>b\<in>S. room_wf (heap st' b)"
  using room_wf_same_shape by (auto simp: keeps_shapes_def)

lemma search_total_Inr [simp]: "search_total st (Inr (ok, st')) = keeps_shapes st st'"
  by (simp add: search_total_def)

lemma search_total_shapes:
  "keeps_shapes st st1 \<Longrightarrow> search_total st1 res \<Longrightarrow> search_total st res"
  by (auto simp: search_total_def intro: keeps_shapes_trans)

lemma get_adjacent_positions_total:
  "pos other \<noteq> None \<Longrightarrow> \<exists>ps. get_adjacent_positions r other = Inr ps"
  by (auto simp: get_adjacent_positions_def)

lemma adj_regions_total:
  assumes "room_wf (heap st a)"
  shows "\<exists>cands'. adj_regions self st a p rot rgs cands = Inr (cands', st)"
proof (induction rgs arbitrary: cands)
  case Nil
  then show ?case by simp
next
  case (Cons rg rgs)
  from assms fit_score_total [of "heap st a" rg "fst p" "snd p"]
  obtain f where f: "u_get_region_fit_score (heap st a) rg (fst p) (snd p) = Inr f"
    by (auto simp: room_wf_def)
  have s: "u_get_adjacency_score self st a p rot = (fst (u_get_adjacency_score self st a p rot), st)"
    using adjacency_score_restores [of self st a p rot] by (metis prod.collapse)
  show ?case
  proof (cases "f > 0")
    case True
    from Cons.IH [of "cands @ [(p, rg, rot, 4 / 5 * fst (u_get_adjacency_score self st a p rot) + 1 / 5 * f)]"]
    show ?thesis using f True by (subst adj_regions.simps, subst s) (simp add: rbind_Inr)
  next
    case False
    from Cons.IH [of cands] show ?thesis using f False by (simp add: rbind_Inr)
  qed
qed

lemma adj_positions_total:
  "room_wf (heap st a) \<Longrightarrow>
   \<exists>cands' st'. adj_positions self st a ps cands = Inr (cands', st') \<and> touches_only a st st'"
proof (induction ps arbitrary: st cands)
  case Nil
  then show ?case by simp
next
  case (Cons q ps)
  obtain x y rot where q: "q = (x, y, rot)" by (cases q) auto
  let ?st1 = "upd st a (orient rot)"
  have wf1: "room_wf (heap ?st1 a)" using Cons.prems by simp
  from adj_regions_total [OF wf1, of self "(x, y)" rot "regions self" cands]
  obtain c1 where c1: "adj_regions self ?st1 a (x, y) rot (regions self) cands = Inr (c1, ?st1)"
    by blast
  from Cons.IH [OF wf1, of c1] obtain cands' st' where
    r: "adj_positions self ?st1 a ps c1 = Inr (cands', st')" and t: "touches_only a ?st1 st'"
    by blast
  have "adj_positions self st a (q # ps) cands = adj_positions self ?st1 a ps c1"
    using c1 by (simp add: q Let_def rotate_step_orient' rbind_Inr upd_orient_twice)
  with r touches_only_trans [OF touches_only_orient t] show ?case by auto
qed

lemma adj_targets_total:
  "room_wf (heap st a) \<Longrightarrow> a \<notin> set ts \<Longrightarrow> \<forall>p\<in>set ts. pos (heap st p) \<noteq> None \<Longrightarrow>
   \<exists>cands' st'. adj_targets self st a ts cands = Inr (cands', st') \<and> touches_only a st st'"
proof (induction ts arbitrary: st cands)
  case Nil
  then show ?case by simp
next
  case (Cons t ts)
  from Cons.prems(3) get_adjacent_positions_total [of "heap st t" "heap st a"]
  obtain ps where ps: "get_adjacent_positions (heap st a) (heap st t) = Inr ps" by auto
  from adj_positions_total [OF Cons.prems(1), of self ps cands]
  obtain c1 st1 where c1: "adj_positions self st a ps cands = Inr (c1, st1)"
    and t1: "touches_only a st st1" by blast
  have wf1: "room_wf (heap st1 a)"
    using t1 Cons.prems(1) room_wf_same_shape [of "heap st a" "heap st1 a"]
    by (simp add: touches_only_def)
  have p1: "\<forall>p\<in>set ts. pos (heap st1 p) \<noteq> None"
    using t1 Cons.prems(2,3) by (auto simp: touches_only_def)
  from Cons.IH [OF wf1 _ p1, of c1] Cons.prems(2)
  obtain cands' st' where r: "adj_targets self st1 a ts c1 = Inr (cands', st')"
    and t2: "touches_only a st1 st'" by auto
  from ps c1 r touches_only_trans [OF t1 t2] show ?case by (auto simp: rbind_Inr)
qed

lemma generate_candidates_total:
  assumes "1 \<le> step_size self" "room_wf (heap st a)" "a \<notin> set (placed_rooms st)"
    "\<forall>p\<in>set (placed_rooms st). pos (heap st p) \<noteq> None"
  shows "\<exists>cands st'. u_generate_candidate_positions self st a = Inr (cands, st')"
proof -
  define req where "req = set (get_or_empty (adjacency_graph self) (room_id (heap st a)))"
  define ts0 where "ts0 = filter (\<lambda>p. room_id (heap st p) \<in> req) (placed_rooms st)"
  define ts where "ts = (if ts0 = [] \<and> placed_rooms st \<noteq> [] then placed_rooms st else ts0)"
  have sub: "set ts \<subseteq> set (placed_rooms st)" by (auto simp: ts_def ts0_def)
  have "\<exists>c0 st'. (if ts = [] then grid_regions self st a (regions self) []
                  else adj_targets self st a ts []) = Inr (c0, st')"
  proof (cases "ts = []")
    case True
    with grid_regions_total [of self st a "regions self" "[]"] assms(1,2) show ?thesis
      by (auto simp: room_wf_def)
  next
    case False
    have nt: "a \<notin> set ts" using sub assms(3) by auto
    have pp: "\<forall>p\<in>set ts. pos (heap st p) \<noteq> None" using sub assms(4) by auto
    from adj_targets_total [OF assms(2) nt pp, of self "[]"] False show ?thesis by auto
  qed
  then show ?thesis
    unfolding u_generate_candidate_positions_def Let_def req_def [symmetric] ts0_def [symmetric]
      ts_def [symmetric]
    by (auto simp: rbind_Inr)
qed

lemma greedy_candidates_total:
  "room_wf (heap st a) \<Longrightarrow> \<exists>b' st'. greedy_candidates self st a cs b = Inr (b', st')"
proof (induction cs arbitrary: st b)
  case Nil
  show ?case by (intro exI [of _ b] exI [of _ st]) simp
next
  case (Cons c cs)
  obtain p rg rot sc where c: "c = (p, rg, rot, sc)" by (cases c) auto
  define st2 where "st2 = upd st a (\<lambda>r. (orient rot r)\<lparr>pos := Some p\<rparr>)"
  have wf2: "room_wf (heap st2 a)"
    using Cons.prems by (simp add: st2_def room_wf_def orient_def rotate_room_def)
  from wf2 fit_score_total [of "heap st2 a" rg "fst p" "snd p"]
  obtain f where f: "u_get_region_fit_score (heap st2 a) rg (fst p) (snd p) = Inr f"
    by (auto simp: room_wf_def)
  show ?case
    unfolding c greedy_candidates_Cons Let_def st2_def [symmetric]
    using Cons.IH [OF wf2] f by (simp add: rbind_Inr)
qed


lemma try_candidates_total:
  assumes H: "\<And>s. placement_invariant s \<Longrightarrow>
                 set (placed_rooms s) \<subseteq> set (take (Suc idx) (rooms self)) \<Longrightarrow>
                 placed_rooms s \<noteq> [] \<Longrightarrow> \<forall>b\<in>set (rooms self). room_wf (heap s b) \<Longrightarrow>
                 search_total s (u_place_room_backtracking t self s (Suc idx) ts)"
    and d: "distinct (rooms self)" and i: "idx < length (rooms self)"
  shows "placement_invariant st \<Longrightarrow> set (placed_rooms st) \<subseteq> set (take idx (rooms self)) \<Longrightarrow>
         \<forall>b\<in>set (rooms self). room_wf (heap st b) \<Longrightarrow>
         \<forall>c\<in>set cs. cand_ok (heap st (rooms self ! idx)) c \<Longrightarrow>
         search_total st (try_candidates t self st idx ts cs)"
proof (induction cs arbitrary: st)
  case Nil
  let ?a = "rooms self ! idx"
  have "touches_only ?a st (upd st ?a (\<lambda>r. r\<lparr>pos := None, region := None\<rparr>))"
    by (rule touches_only_upd) (simp add: same_shape_def orient_def rotate_room_def)
  from touches_only_keeps_shapes [OF this] show ?case by simp
next
  case (Cons c cs)
  let ?a = "rooms self ! idx"
  obtain p rg rot sc where c: "c = (p, rg, rot, sc)" by (cases c) auto
  have a: "?a \<notin> set (placed_rooms st)" using Cons.prems(2) nth_notin_take [OF d i] by auto
  define st2 where "st2 = upd st ?a (\<lambda>r. (orient rot r)\<lparr>pos := Some p, region := Some rg\<rparr>)"
  define st3 where "st3 = st2\<lparr>placed_rooms := placed_rooms st2 @ [?a]\<rparr>"
  have unfold: "try_candidates t self st idx ts (c # cs) =
     (if \<not> has_overlap st2 ?a then
        (case u_place_room_backtracking t self st3 (Suc idx) ts of
           Inl e \<Rightarrow> Inl e
         | Inr (ok, st4) \<Rightarrow>
             if ok then Inr (True, st4)
             else try_candidates t self
                    (st4\<lparr>placed_rooms := remove1 ?a (placed_rooms st4)\<rparr>) idx ts cs)
      else try_candidates t self st2 idx ts cs)"
    by (simp add: c try_candidates_Cons Let_def st2_def st3_def)
  have sh: "same_shape (heap st ?a) (heap st2 ?a)"
    by (simp add: st2_def same_shape_def orient_def rotate_room_def)
  have t2: "touches_only ?a st st2"
    unfolding st2_def by (rule touches_only_upd) (simp add: same_shape_def orient_def rotate_room_def)
  have k2: "keeps_shapes st st2" using touches_only_keeps_shapes [OF t2] .
  have f2: "frame st st2" using touches_only_frame [OF t2 a] .
  have inv2: "placement_invariant st2" using frame_invariant [OF f2 Cons.prems(1)] .
  have p2: "placed_rooms st2 = placed_rooms st" by (simp add: st2_def)
  have wf2: "\<forall>b\<in>set (rooms self). room_wf (heap st2 b)"
    using keeps_shapes_wf [OF k2 Cons.prems(3)] .
  have ok2: "\<forall>c\<in>set cs. cand_ok (heap st2 ?a) c"
    using Cons.prems(4) cand_ok_same_shape [OF sh] by simp
  show ?case
  proof (cases "has_overlap st2 ?a")
    case True
    have "search_total st2 (try_candidates t self st2 idx ts cs)"
      using Cons.IH [OF inv2 _ wf2 ok2] Cons.prems(2) p2 by simp
    from search_total_shapes [OF k2 this] True show ?thesis
      by (simp add: unfold)
  next
    case False
    have pk: "placed_ok (heap st2 ?a)"
      using Cons.prems(4) placed_ok_candidate [of "heap st ?a" p rg rot sc] by (simp add: c st2_def)
    have inv3: "placement_invariant st3"
      unfolding st3_def using invariant_place [OF inv2 _ pk False] a p2 by simp
    have sub3: "set (placed_rooms st3) \<subseteq> set (take (Suc idx) (rooms self))"
      using Cons.prems(2) i by (auto simp: st3_def p2 take_Suc_conv_app_nth)
    have ne3: "placed_rooms st3 \<noteq> []" by (simp add: st3_def)
    have k3: "keeps_shapes st st3"
      using keeps_shapes_trans [OF k2 keeps_shapes_heap [of st3 st2]] by (simp add: st3_def)
    have wf3: "\<forall>b\<in>set (rooms self). room_wf (heap st3 b)"
      using keeps_shapes_wf [OF k3 Cons.prems(3)] .
    from H [OF inv3 sub3 ne3 wf3] obtain ok st4 where
      bt: "u_place_room_backtracking t self st3 (Suc idx) ts = Inr (ok, st4)"
      and k4: "keeps_shapes st3 st4"
      by (auto simp: search_total_def)
    have post3: "search_post self st3 (u_place_room_backtracking t self st3 (Suc idx) ts)"
      by (rule backtracking_post [OF d inv3 sub3]) (simp add: ne3)
    show ?thesis
    proof (cases ok)
      case True
      with bt False keeps_shapes_trans [OF k3 k4] show ?thesis
        by (simp add: unfold)
    next
      case nok: False
      with post3 bt have f34: "frame st3 st4" by simp
      define st5 where "st5 = st4\<lparr>placed_rooms := remove1 ?a (placed_rooms st4)\<rparr>"
      have p4: "placed_rooms st4 = placed_rooms st @ [?a]"
        using f34 by (simp add: frame_def st3_def p2)
      have p5: "placed_rooms st5 = placed_rooms st"
        using a by (simp add: st5_def p4 remove1_append)
      have h4: "\<forall>b\<in>set (placed_rooms st @ [?a]). heap st4 b = heap st2 b"
        using f34 by (simp add: frame_def st3_def p2)
      have h5: "heap st5 = heap st4" by (simp add: st5_def)
      have f5: "frame st st5"
        using h4 f2 by (auto simp: frame_def p5 h5 p2)
      have inv5: "placement_invariant st5" using frame_invariant [OF f5 Cons.prems(1)] .
      have k5: "keeps_shapes st st5"
        using keeps_shapes_trans [OF keeps_shapes_trans [OF k3 k4] keeps_shapes_heap [OF h5]] .
      have wf5: "\<forall>b\<in>set (rooms self). room_wf (heap st5 b)"
        using keeps_shapes_wf [OF k5 Cons.prems(3)] .
      have "heap st5 ?a = heap st2 ?a" using h4 by (simp add: h5)
      with ok2 have ok5: "\<forall>c\<in>set cs. cand_ok (heap st5 ?a) c" by simp
      have "search_total st5 (try_candidates t self st5 idx ts cs)"
        using Cons.IH [OF inv5 _ wf5 ok5] Cons.prems(2) p5 by simp
      from search_total_shapes [OF k5 this] nok bt False show ?thesis
        by (simp add: unfold st5_def)
    qed
  qed
qed

lemma placed_has_position:
  "placement_invariant st \<Longrightarrow> \<forall>p\<in>set (placed_rooms st). pos (heap st p) \<noteq> None"
  by (auto simp: placement_invariant_def placed_ok_iff)

lemma backtracking_total:
  "distinct (rooms self) \<Longrightarrow> 1 \<le> step_size self \<Longrightarrow> placement_invariant st \<Longrightarrow>
   set (placed_rooms st) \<subseteq> set (take idx (rooms self)) \<Longrightarrow>
   (placed_rooms st = [] \<longrightarrow> idx < length (rooms self) \<longrightarrow> \<not> rotated (heap st (rooms self ! idx))) \<Longrightarrow>
   \<forall>b\<in>set (rooms self). room_wf (heap st b) \<Longrightarrow>
   search_total st (u_place_room_backtracking t self st idx ts)"
proof (induction "length (rooms self) - idx" arbitrary: idx st)
  case 0
  obtain e st0 where ct: "check_timeout t self st ts = (e, st0)"
    by (cases "check_timeout t self st ts") auto
  from check_timeout_keeps [OF ct] have "keeps_shapes st st0" by (simp add: keeps_shapes_heap)
  with "0.hyps" ct show ?case
    by (simp add: u_place_room_backtracking.simps)
next
  case (Suc k)
  then have i: "idx < length (rooms self)" by simp
  let ?a = "rooms self ! idx"
  obtain e st0 where ct: "check_timeout t self st ts = (e, st0)"
    by (cases "check_timeout t self st ts") auto
  from check_timeout_keeps [OF ct] have k: "heap st0 = heap st" "placed_rooms st0 = placed_rooms st"
    by simp_all
  have k0: "keeps_shapes st st0" using k(1) by (simp add: keeps_shapes_heap)
  have f: "frame st st0" using k by (simp add: frame_def)
  have inv0: "placement_invariant st0" using frame_invariant [OF f Suc.prems(3)] .
  have a: "?a \<notin> set (placed_rooms st0)"
    using Suc.prems(4) nth_notin_take [OF Suc.prems(1) i] k(2) by auto
  have l: "k = length (rooms self) - Suc idx" using Suc.hyps(2) by simp
  have H: "\<And>s. placement_invariant s \<Longrightarrow>
                 set (placed_rooms s) \<subseteq> set (take (Suc idx) (rooms self)) \<Longrightarrow>
                 placed_rooms s \<noteq> [] \<Longrightarrow> \<forall>b\<in>set (rooms self). room_wf (heap s b) \<Longrightarrow>
                 search_total s (u_place_room_backtracking t self s (Suc idx) ts)"
  proof -
    fix s
    assume s: "placement_invariant s" "set (placed_rooms s) \<subseteq> set (take (Suc idx) (rooms self))"
      "placed_rooms s \<noteq> []" "\<forall>b\<in>set (rooms self). room_wf (heap s b)"
    show "search_total s (u_place_room_backtracking t self s (Suc idx) ts)"
      by (rule Suc.hyps(1) [OF l Suc.prems(1,2) s(1,2) _ s(4)]) (simp add: s(3))
  qed
  show ?case
  proof (cases e)
    case True
    with ct k0 show ?thesis by (simp add: u_place_room_backtracking.simps)
  next
    case False
    have wfa: "room_wf (heap st0 ?a)" using Suc.prems(6) i k(1) by simp
    from generate_candidates_total [OF Suc.prems(2) wfa a placed_has_position [OF inv0]]
    obtain cands st1 where gen: "u_generate_candidate_positions self st0 ?a = Inr (cands, st1)"
      by blast
    have "placed_rooms st0 = [] \<longrightarrow> \<not> rotated (heap st0 ?a)"
      using Suc.prems(5) i k by simp
    from generate_candidates_ok [OF gen this]
    have t1: "touches_only ?a st0 st1" and ok: "\<forall>c\<in>set cands. cand_ok (heap st0 ?a) c"
      by simp_all
    have f1: "frame st0 st1" using touches_only_frame [OF t1 a] .
    have inv1: "placement_invariant st1" using frame_invariant [OF f1 inv0] .
    have k1: "keeps_shapes st st1"
      using keeps_shapes_trans [OF k0 touches_only_keeps_shapes [OF t1]] .
    have wf1: "\<forall>b\<in>set (rooms self). room_wf (heap st1 b)"
      using keeps_shapes_wf [OF k1 Suc.prems(6)] .
    have sh: "same_shape (heap st0 ?a) (heap st1 ?a)" using t1 by (simp add: touches_only_def)
    have ok1: "\<forall>c\<in>set cands. cand_ok (heap st1 ?a) c"
      using ok cand_ok_same_shape [OF sh] by simp
    have sub1: "set (placed_rooms st1) \<subseteq> set (take idx (rooms self))"
      using Suc.prems(4) f1 k(2) by (simp add: frame_def)
    have "search_total st1 (try_candidates t self st1 idx ts cands)"
      by (rule try_candidates_total [OF H Suc.prems(1) i inv1 sub1 wf1 ok1])
    moreover have "u_place_room_backtracking t self st idx ts = try_candidates t self st1 idx ts cands"
      using i by (subst u_place_room_backtracking.simps) (simp add: ct False gen)
    ultimately show ?thesis
      using search_total_shapes [OF k1] by simp
  qed
qed


lemma greedy_rooms_total:
  "1 \<le> step_size self \<Longrightarrow> placement_invariant st \<Longrightarrow> distinct as \<Longrightarrow>
   set as \<inter> set (placed_rooms st) = {} \<Longrightarrow>
   \<forall>a\<in>set as. \<not> rotated (heap st a) \<and> room_wf (heap st a) \<Longrightarrow>
   \<exists>st'. greedy_rooms self st as = Inr st'"
proof (induction as arbitrary: st)
  case Nil
  then show ?case by simp
next
  case (Cons a rest)
  have a: "a \<notin> set (placed_rooms st)" using Cons.prems(4) by simp
  have wfa: "room_wf (heap st a)" using Cons.prems(5) by simp
  from generate_candidates_total [OF Cons.prems(1) wfa a placed_has_position [OF Cons.prems(2)]]
  obtain cands st1 where gen: "u_generate_candidate_positions self st a = Inr (cands, st1)"
    by blast
  have "placed_rooms st = [] \<longrightarrow> \<not> rotated (heap st a)" using Cons.prems(5) by simp
  from generate_candidates_ok [OF gen this]
  have t1: "touches_only a st st1" and ok: "\<forall>c\<in>set cands. cand_ok (heap st a) c" by simp_all
  have sh1: "same_shape (heap st a) (heap st1 a)" using t1 by (simp add: touches_only_def)
  have p1: "placed_rooms st1 = placed_rooms st" using t1 by (simp add: touches_only_def)
  have ok1: "\<forall>c\<in>set cands. cand_ok (heap st1 a) c" using ok cand_ok_same_shape [OF sh1] by simp
  have wf1: "room_wf (heap st1 a)" using wfa room_wf_same_shape [OF sh1] by simp
  from greedy_candidates_total [OF wf1, of self cands "(- 1, None, False, None)"]
  obtain b st2 where gc: "greedy_candidates self st1 a cands (- 1, None, False, None) = Inr (b, st2)"
    by blast
  have g0: "good_best st1 a (- 1, None, False, None)" by (simp add: good_best_def)
  from greedy_candidates_ok [OF gc _ g0 ok1] a p1
  have t2: "touches_only a st1 st2" and gb: "good_best st2 a b" by simp_all
  have t02: "touches_only a st st2" using touches_only_trans [OF t1 t2] .
  have p2: "placed_rooms st2 = placed_rooms st" using t02 by (simp add: touches_only_def)
  have o2: "\<forall>q. q \<noteq> a \<longrightarrow> heap st2 q = heap st q" using t02 by (simp add: touches_only_def)
  have f2: "frame st st2" using touches_only_frame [OF t02 a] .
  have inv2: "placement_invariant st2" using frame_invariant [OF f2 Cons.prems(2)] .
  have dr: "distinct rest" and ar: "a \<notin> set rest" using Cons.prems(3) by simp_all
  obtain bs bp br brg where b: "b = (bs, bp, br, brg)" by (cases b) auto
  show ?case
  proof (cases bp)
    case None
    have d2: "set rest \<inter> set (placed_rooms st2) = {}" using Cons.prems(4) p2 by auto
    have n2: "\<forall>q\<in>set rest. \<not> rotated (heap st2 q) \<and> room_wf (heap st2 q)"
      using Cons.prems(5) o2 ar by auto
    from Cons.IH [OF Cons.prems(1) inv2 dr d2 n2] gen gc b None show ?thesis
      by (simp add: rbind_Inr)
  next
    case (Some p)
    define st4 where "st4 = upd st2 a (\<lambda>r. (orient br r)\<lparr>pos := Some p, region := brg\<rparr>)"
    from gb b Some obtain rg where rg: "brg = Some rg" and ck: "cand_ok (heap st2 a) (p, rg, br, 0)"
      and free: "\<forall>q\<in>set (placed_rooms st2). \<not> overlaps ((orient br (heap st2 a))\<lparr>pos := Some p\<rparr>) (heap st2 q)"
      by (auto simp: good_best_def)
    have t4: "touches_only a st2 st4"
      unfolding st4_def by (rule touches_only_upd) (simp add: same_shape_def orient_def rotate_room_def)
    have p4: "placed_rooms st4 = placed_rooms st" using p2 by (simp add: st4_def)
    have o4: "\<forall>q. q \<noteq> a \<longrightarrow> heap st4 q = heap st q" using o2 by (simp add: st4_def upd_def)
    have f4: "frame st st4" using touches_only_frame [OF touches_only_trans [OF t02 t4] a] .
    have inv4: "placement_invariant st4" using frame_invariant [OF f4 Cons.prems(2)] .
    have pk: "placed_ok (heap st4 a)"
      using placed_ok_candidate [OF ck] by (simp add: st4_def rg)
    have "overlaps (heap st4 a) q = overlaps ((orient br (heap st2 a))\<lparr>pos := Some p\<rparr>) q" for q
      by (rule overlaps_dims) (simp_all add: st4_def)
    moreover have "\<forall>q\<in>set (placed_rooms st2). heap st4 q = heap st2 q"
      using a p2 by (auto simp: st4_def upd_def)
    ultimately have no: "\<not> has_overlap st4 a"
      using free by (simp add: has_overlap_iff p4 p2)
    have inv5: "placement_invariant (st4\<lparr>placed_rooms := placed_rooms st4 @ [a]\<rparr>)"
      using invariant_place [OF inv4 _ pk no] a p4 by simp
    have d5: "set rest \<inter> set (placed_rooms (st4\<lparr>placed_rooms := placed_rooms st4 @ [a]\<rparr>)) = {}"
      using Cons.prems(4) p4 ar by auto
    have n5: "\<forall>q\<in>set rest. \<not> rotated (heap (st4\<lparr>placed_rooms := placed_rooms st4 @ [a]\<rparr>) q)
                \<and> room_wf (heap (st4\<lparr>placed_rooms := placed_rooms st4 @ [a]\<rparr>) q)"
      using Cons.prems(5) o4 ar by auto
    from Cons.IH [OF Cons.prems(1) inv5 dr d5 n5] gen gc b Some show ?thesis
      by (simp add: rbind_Inr Let_def rotate_step_orient' upd_upd st4_def)
  qed
qed

lemma fold_clear_wf:
  "room_wf (heap (fold (\<lambda>a s. upd s a (\<lambda>r. r\<lparr>pos := None, region := None, rotated := False\<rparr>)) as st) b)
     = room_wf (heap st b)"
  by (induction as arbitrary: st) (simp_all add: upd_def room_wf_def)

lemma clear_placements_wf: "room_wf (heap (clear_placements self st) b) = room_wf (heap st b)"
  by (simp add: clear_placements_def fold_clear_wf)

lemma fold_max_ge: "(a::int) \<le> b \<Longrightarrow> a \<le> fold max xs b"
  by (induction xs arbitrary: b) simp_all

lemma max_of_pos: "xs \<noteq> [] \<Longrightarrow> \<forall>x\<in>set xs. (0::int) < x \<Longrightarrow> 0 < max_of xs"
proof -
  assume ne: "xs \<noteq> []" and p: "\<forall>x\<in>set xs. (0::int) < x"
  then have "0 < hd xs" by simp
  moreover have "hd xs \<le> fold max (tl xs) (hd xs)" by (rule fold_max_ge) simp
  ultimately show ?thesis by (simp add: max_of_def)
qed

lemma sort_rooms_total:
  assumes "\<forall>a\<in>set (rooms self). room_wf (heap st a)"
  shows "\<exists>rs. sort_rooms self st = Inr rs"
proof (cases "rooms self = []")
  case True
  then show ?thesis by (simp add: sort_rooms_def)
next
  case False
  have "\<forall>x\<in>set (map (\<lambda>a. area (heap st a)) (rooms self)). 0 < x"
    using assms by (auto simp: room_wf_def area_def)
  with False have "0 < max_of (map (\<lambda>a. area (heap st a)) (rooms self))"
    by (intro max_of_pos) simp_all
  then show ?thesis by (simp add: sort_rooms_def)
qed

text \<open>
  \<^verbatim>\<open>place_rooms\<close> returns: with rooms of positive size, a step size of at least 1 and a
  room list that holds each room object once, no exception is raised and every loop
  terminates, whatever the clock does.
\<close>

theorem place_rooms_total:
  assumes d: "distinct (rooms self)" and step: "1 \<le> step_size self"
    and wf: "\<forall>a\<in>set (rooms self). room_wf (heap st a)"
  shows "\<exists>n self' st'. place_rooms time_time self st = Inr (n, self', st')"
proof -
  define st1 where "st1 = clear_placements self st"
  have wf1: "\<forall>a\<in>set (rooms self). room_wf (heap st1 a)"
    using wf by (simp add: st1_def clear_placements_wf)
  from sort_rooms_total [OF wf1] obtain rs where sr: "sort_rooms self st1 = Inr rs" by blast
  from sort_rooms_perm [OF sr] d have srs: "set rs = set (rooms self)" and drs: "distinct rs" by simp_all
  let ?self1 = "self\<lparr>rooms := rs\<rparr>"
  let ?st2 = "st1\<lparr>clock := Suc (clock st1)\<rparr>"
  have p2: "placed_rooms ?st2 = []" by (simp add: st1_def)
  have r2: "0 < length rs \<longrightarrow> \<not> rotated (heap ?st2 (rs ! 0))"
  proof
    assume "0 < length rs"
    then have "rs ! 0 \<in> set (rooms self)" using srs nth_mem [of 0 rs] by simp
    from clear_placements_unrotated [OF this, of st] show "\<not> rotated (heap ?st2 (rs ! 0))"
      by (simp add: st1_def)
  qed
  have wf2: "\<forall>b\<in>set (rooms ?self1). room_wf (heap ?st2 b)" using wf1 srs by simp
  have "search_total ?st2 (u_place_room_backtracking time_time ?self1 ?st2 0 (Some (time_time (clock st1))))"
    by (rule backtracking_total) (use drs step p2 r2 wf2 in \<open>simp_all add: invariant_empty\<close>)
  then obtain ok st3 where
    bt: "u_place_room_backtracking time_time ?self1 ?st2 0 (Some (time_time (clock st1))) = Inr (ok, st3)"
    and k3: "keeps_shapes ?st2 st3"
    by (auto simp: search_total_def)
  show ?thesis
  proof (cases ok)
    case True
    with sr bt show ?thesis
      by (simp add: place_rooms_def Let_def st1_def [symmetric] rbind_Inr)
  next
    case False
    define st4 where "st4 = clear_placements ?self1 st3"
    have wf3: "\<forall>b\<in>set rs. room_wf (heap st3 b)"
      using keeps_shapes_wf [OF k3, of "set rs"] wf2 by simp
    have wf4: "\<forall>a\<in>set rs. \<not> rotated (heap st4 a) \<and> room_wf (heap st4 a)"
      using clear_placements_unrotated [of _ ?self1 st3] wf3
      by (simp add: st4_def clear_placements_wf)
    have p4: "placed_rooms st4 = []" by (simp add: st4_def)
    from greedy_rooms_total [of ?self1 st4 rs] step drs wf4 p4
    obtain st5 where "greedy_rooms ?self1 st4 rs = Inr st5"
      by (auto simp: invariant_empty)
    with False sr bt show ?thesis
      by (simp add: place_rooms_def Let_def st1_def [symmetric] rbind_Inr u_place_rooms_greedy_def
          st4_def [symmetric])
  qed
qed

subsection \<open>Resetting, and a timeout of zero with an advancing clock\<close>

lemma fold_clear_clock:
  "clock (fold (\<lambda>a s. upd s a f) as st) = clock st"
  by (induction as arbitrary: st) simp_all

lemma clear_placements_clock [simp]: "clock (clear_placements self st) = clock st"
  by (simp add: clear_placements_def fold_clear_clock)

lemma fold_clear_fields:
  "b \<in> set as \<or> (pos (heap st b) = None \<and> region (heap st b) = None \<and> \<not> rotated (heap st b)) \<Longrightarrow>
   pos (heap (fold (\<lambda>a s. upd s a (\<lambda>r. r\<lparr>pos := None, region := None, rotated := False\<rparr>)) as st) b) = None
   \<and> region (heap (fold (\<lambda>a s. upd s a (\<lambda>r. r\<lparr>pos := None, region := None, rotated := False\<rparr>)) as st) b) = None
   \<and> \<not> rotated (heap (fold (\<lambda>a s. upd s a (\<lambda>r. r\<lparr>pos := None, region := None, rotated := False\<rparr>)) as st) b)"
proof (induction as arbitrary: st)
  case Nil
  then show ?case by simp
next
  case (Cons a as)
  let ?st = "upd st a (\<lambda>r. r\<lparr>pos := None, region := None, rotated := False\<rparr>)"
  have "b \<in> set as \<or> (pos (heap ?st b) = None \<and> region (heap ?st b) = None \<and> \<not> rotated (heap ?st b))"
    using Cons.prems by (auto simp: upd_def)
  from Cons.IH [OF this] show ?case by simp
qed

lemma fold_clear_size:
  "width (heap (fold (\<lambda>a s. upd s a (\<lambda>r. r\<lparr>pos := None, region := None, rotated := False\<rparr>)) as st) b)
     = width (heap st b)
   \<and> height (heap (fold (\<lambda>a s. upd s a (\<lambda>r. r\<lparr>pos := None, region := None, rotated := False\<rparr>)) as st) b)
     = height (heap st b)"
  by (induction as arbitrary: st) (simp_all add: upd_def)

text \<open>
  What \<^verbatim>\<open>clear_placements\<close> does: every room of the list is unplaced and unrotated, the
  placed list is empty, and the sizes are whatever they were before the call.
\<close>

lemma clear_placements_resets:
  "placed_rooms (clear_placements self st) = []
   \<and> (\<forall>a\<in>set (rooms self).
         pos (heap (clear_placements self st) a) = None
         \<and> region (heap (clear_placements self st) a) = None
         \<and> \<not> rotated (heap (clear_placements self st) a))
   \<and> (\<forall>a. width (heap (clear_placements self st) a) = width (heap st a)
            \<and> height (heap (clear_placements self st) a) = height (heap st a))"
  using fold_clear_fields [of _ "rooms self" st] fold_clear_size [of "rooms self" st]
  by (simp add: clear_placements_def)

text \<open>
  With the timeout 0, a clock that advances between the reading of \<^verbatim>\<open>timeout_start\<close> and
  the first check sends \<^verbatim>\<open>place_rooms\<close> straight to the greedy pass.
\<close>

lemma timeout_zero_greedy_when_clock_advances:
  assumes "timeout self = 0" "time_time (clock st) \<noteq> 0"
    "time_time (clock st) < time_time (Suc (clock st))"
  shows "place_rooms time_time self st =
     rbind (sort_rooms self (clear_placements self st)) (\<lambda>sorted_rooms.
       rbind (u_place_rooms_greedy (self\<lparr>rooms := sorted_rooms\<rparr>)
                (clear_placements (self\<lparr>rooms := sorted_rooms\<rparr>)
                   ((clear_placements self st)\<lparr>clock := clock st + 2\<rparr>)) sorted_rooms)
         (\<lambda>(n, st4). Inr (n, self\<lparr>rooms := sorted_rooms\<rparr>, st4)))"
proof (cases "sort_rooms self (clear_placements self st)")
  case (Inl e)
  then show ?thesis by (simp add: place_rooms_def Let_def rbind_Inl)
next
  case (Inr rs)
  have "u_place_room_backtracking time_time (self\<lparr>rooms := rs\<rparr>)
          ((clear_placements self st)\<lparr>clock := Suc (clock st)\<rparr>) 0 (Some (time_time (clock st)))
        = Inr (False, (clear_placements self st)\<lparr>clock := clock st + 2\<rparr>)"
    using assms by (subst u_place_room_backtracking.simps) (simp add: check_timeout_def)
  with Inr show ?thesis
    by (simp add: place_rooms_def Let_def rbind_Inr)
qed

end
